theory Spec2Isabelle
  imports Complex_Main "HOL-Library.Sublist" "HOL-Library.AList"
begin

section \<open>Data model (client/src/types/index.ts)\<close>

text \<open>
  Record fields carry a short prefix of their interface (\<open>m_\<close> for Message, \<open>ch_\<close> for
  StreamChunk, \<open>f_\<close> for UploadedFile, ...), because several interfaces share the field
  names \<open>id\<close>, \<open>title\<close>, \<open>type\<close>, \<open>size\<close> and \<open>error\<close>. An optional property
  (\<open>citations?\<close>) is an \<open>option\<close>; a \<open>Date\<close> is its millisecond count.
\<close>

datatype role = User | Assistant | System

record Citation =
  c_id :: string
  c_title :: string
  c_source :: string
  c_excerpt :: "string option"
  c_url :: "string option"
  c_page :: "nat option"

record Message =
  m_id :: string
  m_role :: role
  m_content :: string
  m_timestamp :: nat
  m_citations :: "Citation list option"

text \<open>
  \<open>Partial<Message>\<close>: every property may be absent (\<open>None\<close>). The optional
  \<open>citations\<close> may also be an own property whose value is \<open>undefined\<close>
  (\<open>Some None\<close>), which an object spread copies like any other value. A required
  property (\<open>id\<close>, \<open>role\<close>, \<open>content\<close>, \<open>timestamp\<close>), when present, carries a
  value of its type: with \<open>undefined\<close> there the merged object would not be a Message.
\<close>

record PartialMessage =
  p_id :: "string option"
  p_role :: "role option"
  p_content :: "string option"
  p_timestamp :: "nat option"
  p_citations :: "Citation list option option"

record StreamChunk =
  ch_id :: string
  ch_content :: string
  ch_isComplete :: bool
  ch_messageId :: "string option"

text \<open>
  What \<open>JSON.parse(event.data)\<close> does with the data of a message event: it throws (or
  the property access on the parsed value throws), which lands in the handler's \<open>catch\<close>,
  or it yields a chunk of the declared type.
\<close>

datatype payload = Malformed | Chunk StreamChunk

section \<open>The conversations store (src/unnamed/part_004, the store \<open>conversations\<close>)\<close>

text \<open>
  An \<open>EventSource\<close> object is a cell of the list \<open>sources\<close>, referred to by its index.
  Its two handlers are closures over the \<open>conversationId\<close> argument of the
  \<open>startStreaming\<close> call that created it, kept in \<open>es_conversationId\<close>. A source that
  has been \<open>close()\<close>d dispatches no further events: that is the contract of the browser's
  EventSource, and the reason for the \<open>es_closed\<close> flag.
\<close>

record EventSource =
  es_url :: string
  es_closed :: bool
  es_conversationId :: string

datatype severity = Success | Error | Warning | Info

record Notification =
  n_id :: string
  n_type :: severity
  n_title :: string
  n_message :: "string option"

record store =
  activeConversationId :: "string option"
  streamingMessageId :: "string option"
  streamingContent :: string
  isStreaming :: bool
  eventSource :: "nat option"
  messages :: "string \<rightharpoonup> Message list"
  authToken :: string
  sources :: "EventSource list"
  console :: "string list"
  notifications :: "Notification list"

definition init_store :: "string \<Rightarrow> store" where
  "init_store tok =
     \<lparr>activeConversationId = None, streamingMessageId = None, streamingContent = [],
      isStreaming = False, eventSource = None, messages = Map.empty, authToken = tok,
      sources = [], console = [], notifications = []\<rparr>"

text \<open>\<open>messages.value.get(conversationId) || []\<close>\<close>

definition currentMessages :: "store \<Rightarrow> string \<Rightarrow> Message list" where
  "currentMessages s conversationId =
     (case messages s conversationId of None \<Rightarrow> [] | Some ms \<Rightarrow> ms)"

definition setMessages :: "string \<Rightarrow> Message list \<Rightarrow> store \<Rightarrow> store" where
  "setMessages conversationId newMessages s =
     s\<lparr>messages := (messages s)(conversationId \<mapsto> newMessages)\<rparr>"

definition addMessage :: "string \<Rightarrow> Message \<Rightarrow> store \<Rightarrow> store" where
  "addMessage conversationId message s =
     s\<lparr>messages := (messages s)(conversationId \<mapsto> currentMessages s conversationId @ [message])\<rparr>"

text \<open>\<open>{ ...current, ...updates }\<close>: a property present in \<open>updates\<close> wins.\<close>

definition spread :: "Message \<Rightarrow> PartialMessage \<Rightarrow> Message" where
  "spread m u =
     \<lparr>m_id = (case p_id u of None \<Rightarrow> m_id m | Some x \<Rightarrow> x),
      m_role = (case p_role u of None \<Rightarrow> m_role m | Some x \<Rightarrow> x),
      m_content = (case p_content u of None \<Rightarrow> m_content m | Some x \<Rightarrow> x),
      m_timestamp = (case p_timestamp u of None \<Rightarrow> m_timestamp m | Some x \<Rightarrow> x),
      m_citations = (case p_citations u of None \<Rightarrow> m_citations m | Some x \<Rightarrow> x)\<rparr>"

text \<open>\<open>findIndex\<close>: the first index whose element satisfies the test, \<open>None\<close> for -1.\<close>

fun findIndex :: "('a \<Rightarrow> bool) \<Rightarrow> 'a list \<Rightarrow> nat option" where
  "findIndex P [] = None"
| "findIndex P (x # xs) =
     (if P x then Some 0 else (case findIndex P xs of None \<Rightarrow> None | Some i \<Rightarrow> Some (Suc i)))"

definition updateMessage :: "string \<Rightarrow> string \<Rightarrow> PartialMessage \<Rightarrow> store \<Rightarrow> store" where
  "updateMessage conversationId messageId updates s =
     (let cur = currentMessages s conversationId in
      case findIndex (\<lambda>msg. m_id msg = messageId) cur of
        None \<Rightarrow> s
      | Some index \<Rightarrow>
          s\<lparr>messages := (messages s)(conversationId \<mapsto> cur[index := spread (cur ! index) updates])\<rparr>)"

definition removeMessage :: "string \<Rightarrow> string \<Rightarrow> store \<Rightarrow> store" where
  "removeMessage conversationId messageId s =
     s\<lparr>messages := (messages s)(conversationId \<mapsto>
          filter (\<lambda>msg. m_id msg \<noteq> messageId) (currentMessages s conversationId))\<rparr>"

text \<open>Decimal rendering of a non-negative integer, as a template literal prints it.\<close>

fun string_of_nat :: "nat \<Rightarrow> string" where
  "string_of_nat n =
     (if n < 10 then [''0123456789'' ! n]
      else string_of_nat (n div 10) @ [''0123456789'' ! (n mod 10)])"

declare string_of_nat.simps [simp del]

text \<open>
  \<open>addOptimisticMessage\<close>: \<open>now\<close> is the clock value that both \<open>Date.now()\<close> and
  \<open>new Date()\<close> read. The function returns the identity of the entry it appended.
\<close>

definition optimisticMessage :: "PartialMessage \<Rightarrow> nat \<Rightarrow> Message" where
  "optimisticMessage message now =
     spread \<lparr>m_id = ''optimistic-'' @ string_of_nat now, m_role = User, m_content = [],
             m_timestamp = now, m_citations = None\<rparr> message"

definition addOptimisticMessage :: "string \<Rightarrow> PartialMessage \<Rightarrow> nat \<Rightarrow> store \<Rightarrow> string \<times> store" where
  "addOptimisticMessage conversationId message now s =
     (m_id (optimisticMessage message now),
      addMessage conversationId (optimisticMessage message now) s)"

definition removeOptimisticMessage :: "string \<Rightarrow> string \<Rightarrow> store \<Rightarrow> store" where
  "removeOptimisticMessage conversationId messageId s = removeMessage conversationId messageId s"

text \<open>
  A complete Message passed where \<open>Partial<Message>\<close> is expected. When the message
  has no citations, \<open>own_citations\<close> says whether the object still has a \<open>citations\<close>
  property of its own (with value \<open>undefined\<close>) or none.
\<close>

definition as_updates :: "bool \<Rightarrow> Message \<Rightarrow> PartialMessage" where
  "as_updates own_citations m =
     \<lparr>p_id = Some (m_id m), p_role = Some (m_role m), p_content = Some (m_content m),
      p_timestamp = Some (m_timestamp m),
      p_citations = (case m_citations m of
                       Some cs \<Rightarrow> Some (Some cs)
                     | None \<Rightarrow> if own_citations then Some None else None)\<rparr>"

subsection \<open>Streaming\<close>

definition close_source :: "nat \<Rightarrow> store \<Rightarrow> store" where
  "close_source r s =
     (if r < length (sources s)
      then s\<lparr>sources := (sources s)[r := (sources s ! r)\<lparr>es_closed := True\<rparr>]\<rparr>
      else s)"

definition stopStreaming :: "store \<Rightarrow> store" where
  "stopStreaming s =
     (let s1 = (case eventSource s of
                  None \<Rightarrow> s
                | Some r \<Rightarrow> (close_source r s)\<lparr>eventSource := None\<rparr>)
      in s1\<lparr>isStreaming := False, streamingContent := [], streamingMessageId := None\<rparr>)"

definition stream_url :: "string \<Rightarrow> string \<Rightarrow> string \<Rightarrow> string" where
  "stream_url conversationId streamId tok =
     ''/api/conversations/'' @ conversationId @ ''/stream/'' @ streamId @ ''?token='' @ tok"

definition startStreaming :: "string \<Rightarrow> string \<Rightarrow> store \<Rightarrow> store" where
  "startStreaming streamId conversationId s =
     (let s1 = (case eventSource s of None \<Rightarrow> s | Some r \<Rightarrow> close_source r s);
          s2 = s1\<lparr>isStreaming := True, streamingContent := [],
                  streamingMessageId := Some (''stream-'' @ streamId)\<rparr>
      in s2\<lparr>eventSource := Some (length (sources s2)),
             sources := sources s2 @
               [\<lparr>es_url = stream_url conversationId streamId (authToken s2),
                 es_closed = False, es_conversationId = conversationId\<rparr>]\<rparr>)"

text \<open>
  \<open>chunk.messageId || streamingMessageId.value!\<close>: an absent or empty \<open>messageId\<close> is
  falsy. The non-null assertion is justified only while a session is live; the model
  writes the empty string where JavaScript would store \<open>null\<close>, and
  \<open>live_has_messageId\<close> below shows that an event delivered to an open source never
  gets there.
\<close>

definition final_id :: "StreamChunk \<Rightarrow> store \<Rightarrow> string" where
  "final_id chunk s =
     (case ch_messageId chunk of
        Some m \<Rightarrow> if m \<noteq> [] then m else (case streamingMessageId s of Some x \<Rightarrow> x | None \<Rightarrow> [])
      | None \<Rightarrow> (case streamingMessageId s of Some x \<Rightarrow> x | None \<Rightarrow> []))"

definition assistantMessage :: "StreamChunk \<Rightarrow> nat \<Rightarrow> store \<Rightarrow> Message" where
  "assistantMessage chunk now s =
     \<lparr>m_id = final_id chunk s, m_role = Assistant, m_content = streamingContent s,
      m_timestamp = now, m_citations = Some []\<rparr>"

definition console_error :: "string \<Rightarrow> store \<Rightarrow> store" where
  "console_error line s = s\<lparr>console := console s @ [line]\<rparr>"

text \<open>The \<open>onmessage\<close> handler installed by \<open>startStreaming(streamId, conversationId)\<close>.\<close>

definition onmessage :: "string \<Rightarrow> payload \<Rightarrow> nat \<Rightarrow> store \<Rightarrow> store" where
  "onmessage conversationId ev now s =
     (case ev of
        Chunk chunk \<Rightarrow>
          if ch_isComplete chunk
          then stopStreaming (addMessage conversationId (assistantMessage chunk now s) s)
          else s\<lparr>streamingContent := streamingContent s @ ch_content chunk\<rparr>
      | Malformed \<Rightarrow> stopStreaming (console_error ''Error parsing stream chunk:'' s))"

definition onerror :: "store \<Rightarrow> store" where
  "onerror s = stopStreaming (console_error ''Streaming error:'' s)"

text \<open>The transport delivers an event to the handlers of source \<open>r\<close> only while it is open.\<close>

definition is_open :: "store \<Rightarrow> nat \<Rightarrow> bool" where
  "is_open s r = (r < length (sources s) \<and> \<not> es_closed (sources s ! r))"

definition dispatch_message :: "nat \<Rightarrow> payload \<Rightarrow> nat \<Rightarrow> store \<Rightarrow> store" where
  "dispatch_message r ev now s =
     (if is_open s r then onmessage (es_conversationId (sources s ! r)) ev now s else s)"

definition dispatch_error :: "nat \<Rightarrow> store \<Rightarrow> store" where
  "dispatch_error r s = (if is_open s r then onerror s else s)"

text \<open>Everything that can happen to the store, and a run of such events.\<close>

datatype event =
    StartStreaming string string
  | StopStreaming
  | OnMessage nat payload nat
  | OnError nat
  | AddMessage string Message
  | UpdateMessage string string PartialMessage
  | RemoveMessage string string
  | SetMessages string "Message list"
  | AddOptimistic string PartialMessage nat

fun step :: "store \<Rightarrow> event \<Rightarrow> store" where
  "step s (StartStreaming streamId conversationId) = startStreaming streamId conversationId s"
| "step s StopStreaming = stopStreaming s"
| "step s (OnMessage r ev now) = dispatch_message r ev now s"
| "step s (OnError r) = dispatch_error r s"
| "step s (AddMessage c m) = addMessage c m s"
| "step s (UpdateMessage c i u) = updateMessage c i u s"
| "step s (RemoveMessage c i) = removeMessage c i s"
| "step s (SetMessages c ms) = setMessages c ms s"
| "step s (AddOptimistic c p now) = snd (addOptimisticMessage c p now s)"

definition run :: "store \<Rightarrow> event list \<Rightarrow> store" where
  "run s evs = foldl step s evs"

text \<open>The fragments of one session, delivered in arrival order to source \<open>r\<close>.\<close>

definition deliver :: "nat \<Rightarrow> nat \<Rightarrow> StreamChunk list \<Rightarrow> store \<Rightarrow> store" where
  "deliver r now chunks s = foldl (\<lambda>s c. dispatch_message r (Chunk c) now s) s chunks"

subsection \<open>Concrete fragments used to exercise the handlers\<close>

definition hello :: StreamChunk where
  "hello = \<lparr>ch_id = ''chunk-1'', ch_content = ''Hello '', ch_isComplete = False, ch_messageId = None\<rparr>"

definition world :: StreamChunk where
  "world = \<lparr>ch_id = ''chunk-2'', ch_content = ''world'', ch_isComplete = True, ch_messageId = Some ''m1''\<rparr>"

text \<open>Concrete messages used to exercise the store.\<close>

definition msgA :: Message where
  "msgA = \<lparr>m_id = ''msg-1'', m_role = User, m_content = ''Hello'', m_timestamp = 1, m_citations = None\<rparr>"

definition msgFinal :: Message where
  "msgFinal = \<lparr>m_id = ''m1'', m_role = User, m_content = ''Test message'', m_timestamp = 9, m_citations = None\<rparr>"

definition msgReply :: Message where
  "msgReply = \<lparr>m_id = ''msg-2'', m_role = Assistant, m_content = ''Hi there!'', m_timestamp = 7,
               m_citations = Some []\<rparr>"

definition msgFinal2 :: Message where
  "msgFinal2 = \<lparr>m_id = ''m2'', m_role = User, m_content = ''second final'', m_timestamp = 9,
                m_citations = None\<rparr>"

definition partialFirst :: PartialMessage where
  "partialFirst = \<lparr>p_id = None, p_role = Some User, p_content = Some ''first'',
                    p_timestamp = None, p_citations = None\<rparr>"

definition partialSecond :: PartialMessage where
  "partialSecond = \<lparr>p_id = None, p_role = Some User, p_content = Some ''second'',
                     p_timestamp = None, p_citations = None\<rparr>"

text \<open>Two optimistic messages appended while the clock reads 5.\<close>

definition same_clock :: store where
  "same_clock =
     snd (addOptimisticMessage ''c1'' partialSecond 5
       (snd (addOptimisticMessage ''c1'' partialFirst 5 (init_store ''tok''))))"

definition partialTest :: PartialMessage where
  "partialTest = \<lparr>p_id = None, p_role = Some User, p_content = Some ''Test message'',
                   p_timestamp = None, p_citations = None\<rparr>"

subsection \<open>Invariants of the streaming coordinator\<close>

text \<open>
  The only open source is the one the store refers to, and while the store refers to a
  source it has a streaming identity.
\<close>

definition coordinator_inv :: "store \<Rightarrow> bool" where
  "coordinator_inv s =
     ((\<forall>r. is_open s r \<longrightarrow> eventSource s = Some r) \<and>
      (\<forall>r. eventSource s = Some r \<longrightarrow> is_open s r \<and> streamingMessageId s \<noteq> None))"

definition closed_at :: "store \<Rightarrow> nat \<Rightarrow> bool" where
  "closed_at s r = (r < length (sources s) \<and> es_closed (sources s ! r))"

text \<open>A run that opens session \<open>s1\<close> and buffers one fragment.\<close>

definition first_session :: "event list" where
  "first_session = [StartStreaming ''s1'' ''c1'', OnMessage 0 (Chunk hello) 7]"

section \<open>The files store (client/src/stores/files.ts)\<close>

text \<open>
  File status: the constructor \<open>ErrorStatus\<close> stands for the status \<open>'error'\<close>. Sizes
  are byte counts; the two progress properties are JavaScript numbers and are modelled
  as reals.
\<close>

datatype status = Pending | Uploading | Completed | ErrorStatus

record UploadedFile =
  f_id :: string
  f_name :: string
  f_size :: nat
  f_type :: string
  f_status :: status
  f_url :: "string option"
  f_uploadProgress :: "real option"
  f_progress :: "real option"
  f_error :: "string option"
  f_errorMessage :: "string option"

text \<open>The browser's \<open>File\<close>, as far as the code reads it.\<close>

record File =
  file_name :: string
  file_size :: nat
  file_type :: string

text \<open>
  \<open>uploadQueue\<close> is a \<open>Map<string, UploadedFile>\<close>: an association list in insertion
  order, where \<open>set\<close> on a key that is present replaces the value in place
  (\<open>AList.update\<close>) and \<open>delete\<close> removes the key (\<open>AList.delete\<close>).
\<close>

type_synonym uploadQueue = "(string \<times> UploadedFile) list"

definition store_allowedTypes :: "string list" where
  "store_allowedTypes =
     [''application/pdf'', ''text/plain'', ''application/msword'',
      ''application/vnd.openxmlformats-officedocument.wordprocessingml.document'',
      ''text/markdown'']"

text \<open>\<open>Array.prototype.includes\<close> and \<open>Array.prototype.some\<close>.\<close>

primrec includes_arr :: "'a list \<Rightarrow> 'a \<Rightarrow> bool" where
  "includes_arr [] y = False"
| "includes_arr (x # xs) y = (x = y \<or> includes_arr xs y)"

primrec some :: "'a list \<Rightarrow> ('a \<Rightarrow> bool) \<Rightarrow> bool" where
  "some [] P = False"
| "some (x # xs) P = (P x \<or> some xs P)"

text \<open>
  \<open>validateFile\<close> of the store; the result is \<open>None\<close> for \<open>{valid: true}\<close> and the
  error text otherwise. \<open>Math.round(maxFileSize / 1024 / 1024)\<close> rounds half up.
\<close>

definition store_validateFile :: "nat \<Rightarrow> File \<Rightarrow> string option" where
  "store_validateFile maxFileSize file =
     (if file_size file > maxFileSize
      then Some (''File size exceeds '' @
                 string_of_nat ((2 * maxFileSize + 1048576) div 2097152) @ ''MB limit'')
      else if \<not> includes_arr store_allowedTypes (file_type file)
      then Some ''File type not supported''
      else None)"


definition updateFileProgress :: "string \<Rightarrow> real \<Rightarrow> uploadQueue \<Rightarrow> uploadQueue" where
  "updateFileProgress fileId progress q =
     (case map_of q fileId of
        None \<Rightarrow> q
      | Some file \<Rightarrow>
          AList.update fileId
            (file\<lparr>f_uploadProgress := Some progress,
                  f_status := (if progress = 100 then Completed else Uploading)\<rparr>) q)"

definition setFileStatus :: "string \<Rightarrow> status \<Rightarrow> string option \<Rightarrow> uploadQueue \<Rightarrow> uploadQueue" where
  "setFileStatus fileId st err q =
     (case map_of q fileId of
        None \<Rightarrow> q
      | Some file \<Rightarrow> AList.update fileId (file\<lparr>f_status := st, f_error := err\<rparr>) q)"

text \<open>A queue entry used to exercise the store.\<close>

definition entry1 :: UploadedFile where
  "entry1 = \<lparr>f_id = ''upload-1'', f_name = ''test.txt'', f_size = 1024, f_type = ''text/plain'',
             f_status = Completed, f_url = None, f_uploadProgress = Some 100, f_progress = None,
             f_error = None, f_errorMessage = None\<rparr>"

section \<open>The upload area (components/chat/FileUploadArea.vue)\<close>

record Props =
  props_files :: "UploadedFile list"
  props_isUploading :: bool
  props_uploadProgress :: real
  props_maxFileSize :: nat
  props_maxFiles :: nat

text \<open>What the component emits to its parent.\<close>

datatype emit = UploadError string | FilesSelected "File list" | FileRemove string

definition allowedTypes :: "string list" where
  "allowedTypes =
     [''text/plain'', ''text/log'', ''application/json'', ''image/png'', ''image/jpeg'',
      ''image/gif'', ''application/pdf'', ''application/msword'',
      ''application/vnd.openxmlformats-officedocument.wordprocessingml.document'']"

definition allowedExtensions :: "string list" where
  "allowedExtensions =
     [''.txt'', ''.log'', ''.json'', ''.png'', ''.jpg'', ''.jpeg'', ''.gif'', ''.pdf'',
      ''.doc'', ''.docx'']"

text \<open>
  \<open>toLowerCase\<close> on the ASCII letters; other characters are left as they are. No
  character outside ASCII lowers to a letter that occurs in \<open>allowedExtensions\<close>.
\<close>

definition lower_char :: "char \<Rightarrow> char" where
  "lower_char c =
     (case map_of (zip ''ABCDEFGHIJKLMNOPQRSTUVWXYZ'' ''abcdefghijklmnopqrstuvwxyz'') c of
        None \<Rightarrow> c
      | Some l \<Rightarrow> l)"

definition toLowerCase :: "string \<Rightarrow> string" where
  "toLowerCase s = map lower_char s"

definition endsWith :: "string \<Rightarrow> string \<Rightarrow> bool" where
  "endsWith s ext = (length ext \<le> length s \<and> drop (length s - length ext) s = ext)"

definition isValidFileType :: "File \<Rightarrow> bool" where
  "isValidFileType file =
     (includes_arr allowedTypes (file_type file) \<or>
      some allowedExtensions (\<lambda>ext. endsWith (toLowerCase (file_name file)) ext))"

text \<open>\<open>Array.prototype.join\<close>.\<close>

fun join :: "string \<Rightarrow> string list \<Rightarrow> string" where
  "join sep [] = []"
| "join sep [x] = x"
| "join sep (x # y # ys) = x @ sep @ join sep (y # ys)"

text \<open>
  The two error texts of \<open>processFiles\<close>. \<open>formatFileSize\<close> goes through
  floating-point logarithms and \<open>toFixed\<close>; it is a parameter here, so everything below
  holds whatever text it produces.
\<close>

definition too_large :: "(nat \<Rightarrow> string) \<Rightarrow> nat \<Rightarrow> File \<Rightarrow> string" where
  "too_large formatFileSize maxFileSize file =
     file_name file @ '' is too large (max '' @ formatFileSize maxFileSize @ '')''"

definition not_supported :: "File \<Rightarrow> string" where
  "not_supported file = file_name file @ '' is not a supported file type''"

text \<open>The loop of \<open>processFiles\<close>, with its two arrays as accumulators.\<close>

fun validate_loop ::
  "(nat \<Rightarrow> string) \<Rightarrow> nat \<Rightarrow> File list \<Rightarrow> File list \<Rightarrow> string list \<Rightarrow> File list \<times> string list"
where
  "validate_loop fmt maxFileSize [] validFiles errors = (validFiles, errors)"
| "validate_loop fmt maxFileSize (file # files) validFiles errors =
     (if file_size file > maxFileSize
      then validate_loop fmt maxFileSize files validFiles
             (errors @ [too_large fmt maxFileSize file])
      else if \<not> isValidFileType file
      then validate_loop fmt maxFileSize files validFiles (errors @ [not_supported file])
      else validate_loop fmt maxFileSize files (validFiles @ [file]) errors)"

definition count_error :: "nat \<Rightarrow> string" where
  "count_error maxFiles = ''Maximum '' @ string_of_nat maxFiles @ '' files allowed''"

definition processFiles :: "(nat \<Rightarrow> string) \<Rightarrow> Props \<Rightarrow> File list \<Rightarrow> emit list" where
  "processFiles fmt props files =
     (if length (props_files props) + length files > props_maxFiles props
      then [UploadError (count_error (props_maxFiles props))]
      else
        (let (validFiles, errors) = validate_loop fmt (props_maxFileSize props) files [] []
         in (if length errors > 0 then [UploadError (join '', '' errors)] else []) @
            (if length validFiles > 0 then [FilesSelected validFiles] else [])))"


section \<open>The chat window (components/chat/ChatWindow.vue)\<close>

text \<open>
  The file objects live in \<open>heap\<close> and are referred to by index: \<open>startFileUpload\<close>
  keeps writing to the objects of its batch, whether or not the array \<open>uploadedFiles\<close>
  still refers to them. A call of \<open>startFileUpload\<close> that is suspended at its \<open>await\<close>
  is an \<open>upload_task\<close>: the file being uploaded, the loop counter \<open>progress\<close>, and the
  files of the batch still to come.
\<close>

record upload_task =
  t_file :: nat
  t_progress :: nat
  t_rest :: "nat list"

record ChatWindow =
  heap :: "UploadedFile list"
  uploadedFiles :: "nat list"
  isUploading :: bool
  uploadProgress :: real
  showFileUpload :: bool
  error :: "string option"
  tasks :: "upload_task list"

definition init_window :: ChatWindow where
  "init_window =
     \<lparr>heap = [], uploadedFiles = [], isUploading = False, uploadProgress = 0,
      showFileUpload = False, error = None, tasks = []\<rparr>"

text \<open>The entries behind \<open>uploadedFiles\<close>, in order.\<close>

definition entries :: "ChatWindow \<Rightarrow> UploadedFile list" where
  "entries s = map (\<lambda>r. heap s ! r) (uploadedFiles s)"

text \<open>
  \<open>file.status = 'uploading'\<close>; then the first round of the inner loop up to its
  \<open>await\<close>: \<open>file.progress = 0; uploadProgress.value = 0\<close>.
\<close>

definition begin_file :: "nat \<Rightarrow> ChatWindow \<Rightarrow> ChatWindow" where
  "begin_file r s =
     s\<lparr>heap := (heap s)[r := (heap s ! r)\<lparr>f_status := Uploading, f_progress := Some 0\<rparr>],
       uploadProgress := 0\<rparr>"

text \<open>\<open>startFileUpload\<close> up to its first \<open>await\<close> (or to its end, for an empty batch).\<close>

definition startFileUpload :: "nat list \<Rightarrow> ChatWindow \<Rightarrow> ChatWindow" where
  "startFileUpload files s =
     (let s1 = s\<lparr>isUploading := True\<rparr> in
      case files of
        [] \<Rightarrow> s1\<lparr>isUploading := False\<rparr>
      | r # rs \<Rightarrow>
          (begin_file r s1)\<lparr>tasks := tasks s1 @ [\<lparr>t_file = r, t_progress = 0, t_rest = rs\<rparr>]\<rparr>)"

text \<open>
  The timer of task \<open>i\<close> fires: the loop counter advances by 10; up to 100 the progress
  is written and the task waits again; past 100 the file is completed and the next file
  of the batch begins, or the call ends with \<open>isUploading.value = false\<close>.
\<close>

definition resume :: "nat \<Rightarrow> ChatWindow \<Rightarrow> ChatWindow" where
  "resume i s =
     (if i \<ge> length (tasks s) then s
      else
        (let t = tasks s ! i; r = t_file t; progress = t_progress t + 10 in
         if progress \<le> 100
         then s\<lparr>heap := (heap s)[r := (heap s ! r)\<lparr>f_progress := Some (real progress)\<rparr>],
                uploadProgress := real progress,
                tasks := (tasks s)[i := t\<lparr>t_progress := progress\<rparr>]\<rparr>
         else
           (let s1 = s\<lparr>heap := (heap s)[r := (heap s ! r)\<lparr>f_status := Completed\<rparr>]\<rparr> in
            case t_rest t of
              [] \<Rightarrow> s1\<lparr>isUploading := False, tasks := take i (tasks s) @ drop (Suc i) (tasks s)\<rparr>
            | r' # rs \<Rightarrow>
                (begin_file r' s1)\<lparr>tasks := (tasks s)[i := \<lparr>t_file = r', t_progress = 0, t_rest = rs\<rparr>]\<rparr>)))"

text \<open>
  \<open>handleFilesSelected\<close>: \<open>gen i\<close> is what the \<open>i\<close>-th call of \<open>generateId()\<close>
  returns.
\<close>

definition newFile :: "string \<Rightarrow> File \<Rightarrow> UploadedFile" where
  "newFile ident file =
     \<lparr>f_id = ident, f_name = file_name file, f_size = file_size file, f_type = file_type file,
      f_status = Pending, f_url = None, f_uploadProgress = None, f_progress = None,
      f_error = None, f_errorMessage = None\<rparr>"

definition handleFilesSelected :: "(nat \<Rightarrow> string) \<Rightarrow> File list \<Rightarrow> ChatWindow \<Rightarrow> ChatWindow" where
  "handleFilesSelected gen files s =
     (let newFiles = map (\<lambda>i. newFile (gen i) (files ! i)) [0 ..< length files];
          refs = [length (heap s) ..< length (heap s) + length files]
      in startFileUpload refs
           (s\<lparr>heap := heap s @ newFiles, uploadedFiles := uploadedFiles s @ refs\<rparr>))"

definition handleFileRemove :: "string \<Rightarrow> ChatWindow \<Rightarrow> ChatWindow" where
  "handleFileRemove fileId s =
     s\<lparr>uploadedFiles := filter (\<lambda>r. f_id (heap s ! r) \<noteq> fileId) (uploadedFiles s)\<rparr>"

definition handleUploadError :: "string \<Rightarrow> ChatWindow \<Rightarrow> ChatWindow" where
  "handleUploadError errorMessage s = s\<lparr>error := Some errorMessage\<rparr>"

definition clearFiles :: "ChatWindow \<Rightarrow> ChatWindow" where
  "clearFiles s = s\<lparr>uploadedFiles := [], showFileUpload := False\<rparr>"

definition toggleFileUpload :: "ChatWindow \<Rightarrow> ChatWindow" where
  "toggleFileUpload s = s\<lparr>showFileUpload := \<not> showFileUpload s\<rparr>"

definition clearError :: "ChatWindow \<Rightarrow> ChatWindow" where
  "clearError s = s\<lparr>error := None\<rparr>"

text \<open>
  The template binds \<open>:files="uploadedFiles"\<close>, \<open>:is-uploading\<close> and
  \<open>:upload-progress\<close>; \<open>maxFileSize\<close> and \<open>maxFiles\<close> are not passed by the chat window
  and take their defaults (10 MB and 5) there. They are arguments here, so that the
  results cover every configuration of the component.
\<close>

definition default_maxFileSize :: nat where
  "default_maxFileSize = 10 * 1024 * 1024"

definition default_maxFiles :: nat where
  "default_maxFiles = 5"

definition props_of :: "nat \<Rightarrow> nat \<Rightarrow> ChatWindow \<Rightarrow> Props" where
  "props_of maxFileSize maxFiles s =
     \<lparr>props_files = entries s, props_isUploading = isUploading s,
      props_uploadProgress = uploadProgress s, props_maxFileSize = maxFileSize,
      props_maxFiles = maxFiles\<rparr>"

text \<open>The listeners \<open>@upload-error\<close>, \<open>@files-selected\<close> and \<open>@file-remove\<close>.\<close>

fun handle :: "(nat \<Rightarrow> string) \<Rightarrow> ChatWindow \<Rightarrow> emit \<Rightarrow> ChatWindow" where
  "handle gen s (UploadError msg) = handleUploadError msg s"
| "handle gen s (FilesSelected files) = handleFilesSelected gen files s"
| "handle gen s (FileRemove fileId) = handleFileRemove fileId s"

text \<open>The user picks or drops \<open>files\<close> on the upload area.\<close>

definition select_files ::
  "(nat \<Rightarrow> string) \<Rightarrow> nat \<Rightarrow> nat \<Rightarrow> (nat \<Rightarrow> string) \<Rightarrow> File list \<Rightarrow> ChatWindow \<Rightarrow> ChatWindow"
where
  "select_files fmt maxFileSize maxFiles gen files s =
     foldl (handle gen) s (processFiles fmt (props_of maxFileSize maxFiles s) files)"

text \<open>
  Per-entry progress as the template reads it (\<open>file.progress || 0\<close>), the progress
  values of the entries that are uploading, and the arithmetic mean.
\<close>

definition entry_progress :: "UploadedFile \<Rightarrow> real" where
  "entry_progress file = (case f_progress file of None \<Rightarrow> 0 | Some p \<Rightarrow> p)"

definition uploading_progress :: "ChatWindow \<Rightarrow> real list" where
  "uploading_progress s =
     map entry_progress (filter (\<lambda>file. f_status file = Uploading) (entries s))"

definition mean :: "real list \<Rightarrow> real" where
  "mean xs = sum_list xs / real (length xs)"

subsection \<open>Reading the validation loop\<close>

text \<open>
  What the loop of \<open>processFiles\<close> decides for one file, stated on its own: a file is
  accepted when it is within the size limit and of a valid type; a rejected file gets
  the text of the first check it fails.
\<close>

definition accepts :: "nat \<Rightarrow> File \<Rightarrow> bool" where
  "accepts maxFileSize file = (file_size file \<le> maxFileSize \<and> isValidFileType file)"

definition rejection :: "(nat \<Rightarrow> string) \<Rightarrow> nat \<Rightarrow> File \<Rightarrow> string" where
  "rejection fmt maxFileSize file =
     (if file_size file > maxFileSize then too_large fmt maxFileSize file
      else not_supported file)"

text \<open>The files of the \<open>files-selected\<close> events among what the component emitted.\<close>

fun selected :: "emit list \<Rightarrow> File list" where
  "selected [] = []"
| "selected (FilesSelected files # es) = files @ selected es"
| "selected (UploadError msg # es) = selected es"
| "selected (FileRemove fileId # es) = selected es"

text \<open>The \<open>File\<close> a queue entry was made from.\<close>

definition file_of :: "UploadedFile \<Rightarrow> File" where
  "file_of u = \<lparr>file_name = f_name u, file_size = f_size u, file_type = f_type u\<rparr>"

subsection \<open>Concrete files and windows used to exercise the components\<close>

definition file_notes :: File where
  "file_notes = \<lparr>file_name = ''notes.TXT'', file_size = 10, file_type = []\<rparr>"

definition file_large :: File where
  "file_large = \<lparr>file_name = ''large.txt'', file_size = 2048, file_type = ''text/plain''\<rparr>"

definition file_new :: File where
  "file_new = \<lparr>file_name = ''new.txt'', file_size = 1024, file_type = ''text/plain''\<rparr>"

definition two_files :: ChatWindow where
  "two_files =
     init_window\<lparr>heap := [entry1\<lparr>f_id := ''1''\<rparr>, entry1\<lparr>f_id := ''2''\<rparr>],
                  uploadedFiles := [0, 1]\<rparr>"

definition ids :: "nat \<Rightarrow> string" where
  "ids i = ''id'' @ string_of_nat i"

definition ids2 :: "nat \<Rightarrow> string" where
  "ids2 i = ''second'' @ string_of_nat i"

definition kb :: "nat \<Rightarrow> string" where
  "kb n = string_of_nat (n div 1024) @ '' KB''"

subsection \<open>One batch in flight\<close>

text \<open>
  The state of the chat window while at most one call of \<open>startFileUpload\<close> is
  suspended: the file of the task is the only entry of the list that is uploading, its
  progress is the reported one, and the files still to come are listed once each.
\<close>

definition batch_inv :: "ChatWindow \<Rightarrow> bool" where
  "batch_inv s =
     (case tasks s of
        [] \<Rightarrow> \<not> isUploading s \<and>
              (\<forall>q\<in>set (uploadedFiles s). f_status (heap s ! q) \<noteq> Uploading)
      | [t] \<Rightarrow>
          isUploading s \<and> t_progress t \<le> 100 \<and>
          distinct (t_file t # t_rest t) \<and>
          (\<forall>q\<in>set (t_file t # t_rest t). q < length (heap s)) \<and>
          filter (\<lambda>q. q \<in> set (t_file t # t_rest t)) (uploadedFiles s) = t_file t # t_rest t \<and>
          f_status (heap s ! t_file t) = Uploading \<and>
          f_progress (heap s ! t_file t) = Some (real (t_progress t)) \<and>
          uploadProgress s = real (t_progress t) \<and>
          (\<forall>q\<in>set (uploadedFiles s). q \<noteq> t_file t \<longrightarrow> f_status (heap s ! q) \<noteq> Uploading)
      | _ \<Rightarrow> False)"

text \<open>Windows used to exercise the upload loop.\<close>

definition one_uploading :: ChatWindow where
  "one_uploading = select_files kb default_maxFileSize default_maxFiles ids [file_new] init_window"

definition half_way :: ChatWindow where
  "half_way = (resume 0 ^^ 5) one_uploading"


definition overlapping :: ChatWindow where
  "overlapping = select_files kb default_maxFileSize default_maxFiles ids2 [file_notes] half_way"

subsection \<open>Runs of the chat window\<close>

text \<open>
  What can happen to the upload state of the chat window: a batch is handed over
  (\<open>files-selected\<close>), the timer of the \<open>i\<close>-th suspended upload fires, an entry is
  removed (\<open>file-remove\<close>), the list is cleared (by the Clear button, or by sending a
  message, which calls \<open>clearFiles\<close>), an error text is recorded or dismissed, the upload
  area is shown or hidden.
\<close>

datatype action =
    Select "nat \<Rightarrow> string" "File list"
  | Tick nat
  | Remove string
  | Clear
  | ShowError string
  | Dismiss
  | Toggle

fun act :: "ChatWindow \<Rightarrow> action \<Rightarrow> ChatWindow" where
  "act s (Select gen files) = handleFilesSelected gen files s"
| "act s (Tick i) = resume i s"
| "act s (Remove fileId) = handleFileRemove fileId s"
| "act s Clear = clearFiles s"
| "act s (ShowError msg) = handleUploadError msg s"
| "act s Dismiss = clearError s"
| "act s Toggle = toggleFileUpload s"

definition perform :: "ChatWindow \<Rightarrow> action list \<Rightarrow> ChatWindow" where
  "perform s as = foldl act s as"

text \<open>
  The file objects the suspended uploads still have to work on: the file being uploaded
  and the files of the batch still to come.
\<close>

definition in_flight :: "ChatWindow \<Rightarrow> nat list" where
  "in_flight s = concat (map (\<lambda>t. t_file t # t_rest t) (tasks s))"

text \<open>
  A step keeps the uploads apart from each other and from the list when: a batch is
  handed over only while no upload is in flight; no entry that an upload in flight still
  has to work on is removed; the list is cleared only while no upload is in flight.
  Everything else is always permitted.
\<close>

fun permitted :: "ChatWindow \<Rightarrow> action \<Rightarrow> bool" where
  "permitted s (Select gen files) = (tasks s = [])"
| "permitted s (Tick i) = True"
| "permitted s (Remove fileId) = (\<forall>r\<in>set (in_flight s). f_id (heap s ! r) \<noteq> fileId)"
| "permitted s Clear = (tasks s = [])"
| "permitted s (ShowError msg) = True"
| "permitted s Dismiss = True"
| "permitted s Toggle = True"

fun permitted_run :: "ChatWindow \<Rightarrow> action list \<Rightarrow> bool" where
  "permitted_run s [] = True"
| "permitted_run s (a # as) = (permitted s a \<and> permitted_run (act s a) as)"

text \<open>The invariant of such runs: \<open>batch_inv\<close>, and every listed reference is a file object.\<close>

definition window_inv :: "ChatWindow \<Rightarrow> bool" where
  "window_inv s = (batch_inv s \<and> (\<forall>q\<in>set (uploadedFiles s). q < length (heap s)))"

text \<open>
  A run: one file is uploaded to the end and removed, an error is shown, the upload
  area is opened, then a batch of two files is handed over and its first file advanced
  three times.
\<close>

definition busy_run :: "action list" where
  "busy_run =
     Select ids [file_new] # replicate 11 (Tick 0) @
     [Remove ''id0'', ShowError ''x'', Toggle, Select ids2 [file_notes, file_new],
      Tick 0, Tick 0, Tick 0]"

section \<open>Lemmas about the streaming coordinator\<close>

lemma close_source_eq:
  "close_source r s = s\<lparr>sources := (sources s)[r := (sources s ! r)\<lparr>es_closed := True\<rparr>]\<rparr>"
  by (cases s) (simp add: close_source_def list_update_beyond)

lemma deliver_Nil [simp]: "deliver r now [] s = s"
  by (simp add: deliver_def)

lemma deliver_Cons [simp]:
  "deliver r now (c # cs) s = deliver r now cs (dispatch_message r (Chunk c) now s)"
  by (simp add: deliver_def)

lemma deliver_append:
  "deliver r now (cs @ ds) s = deliver r now ds (deliver r now cs s)"
  by (simp add: deliver_def)

lemma deliver_nonterminal:
  "is_open s r \<Longrightarrow> \<forall>c\<in>set cs. \<not> ch_isComplete c \<Longrightarrow>
   deliver r now cs s = s\<lparr>streamingContent := streamingContent s @ concat (map ch_content cs)\<rparr>"
proof (induction cs arbitrary: s)
  case Nil
  then show ?case by simp
next
  case (Cons c cs)
  let ?s1 = "s\<lparr>streamingContent := streamingContent s @ ch_content c\<rparr>"
  from Cons.prems have step1: "dispatch_message r (Chunk c) now s = ?s1"
    by (simp add: dispatch_message_def onmessage_def)
  from Cons.prems have "is_open ?s1 r" by (simp add: is_open_def)
  with Cons have "deliver r now cs ?s1 =
      ?s1\<lparr>streamingContent := streamingContent ?s1 @ concat (map ch_content cs)\<rparr>"
    by simp
  with step1 show ?case by simp
qed

text \<open>The state right after \<open>startStreaming\<close>, field by field.\<close>

lemma startStreaming_fields:
  "isStreaming (startStreaming sid cid s)"
  "streamingContent (startStreaming sid cid s) = []"
  "streamingMessageId (startStreaming sid cid s) = Some (''stream-'' @ sid)"
  "eventSource (startStreaming sid cid s) = Some (length (sources s))"
  "messages (startStreaming sid cid s) = messages s"
  "console (startStreaming sid cid s) = console s"
  "notifications (startStreaming sid cid s) = notifications s"
  "length (sources (startStreaming sid cid s)) = Suc (length (sources s))"
  "es_conversationId (sources (startStreaming sid cid s) ! length (sources s)) = cid"
  "is_open (startStreaming sid cid s) (length (sources s))"
  by (simp_all add: startStreaming_def close_source_eq is_open_def Let_def nth_append
      split: option.splits)

lemma stopStreaming_fields:
  "\<not> isStreaming (stopStreaming s)"
  "streamingContent (stopStreaming s) = []"
  "streamingMessageId (stopStreaming s) = None"
  "eventSource (stopStreaming s) = None"
  "messages (stopStreaming s) = messages s"
  "console (stopStreaming s) = console s"
  "notifications (stopStreaming s) = notifications s"
  "length (sources (stopStreaming s)) = length (sources s)"
  by (simp_all add: stopStreaming_def close_source_eq Let_def split: option.splits)

lemma stopStreaming_closes:
  "eventSource s = Some r \<Longrightarrow> \<not> is_open (stopStreaming s) r"
  by (simp add: stopStreaming_def close_source_eq is_open_def Let_def)

lemma terminal_chunk:
  assumes "is_open s r" "ch_isComplete t" "eventSource s = Some r"
    and "es_conversationId (sources s ! r) = cid"
  shows "messages (dispatch_message r (Chunk t) now s) =
           (messages s)(cid \<mapsto> currentMessages s cid @ [assistantMessage t now s])"
    and "\<not> isStreaming (dispatch_message r (Chunk t) now s)"
    and "streamingContent (dispatch_message r (Chunk t) now s) = []"
    and "streamingMessageId (dispatch_message r (Chunk t) now s) = None"
    and "eventSource (dispatch_message r (Chunk t) now s) = None"
    and "\<not> is_open (dispatch_message r (Chunk t) now s) r"
  using assms
  by (simp_all add: dispatch_message_def onmessage_def stopStreaming_fields addMessage_def
      stopStreaming_closes)

section \<open>Streaming: completion of a session\<close>

text \<open>
  C1 (as amended). A session opened by \<open>startStreaming streamId conversationId\<close> that
  receives the non-terminal fragments \<open>cs\<close> and then a terminal fragment \<open>t\<close> appends
  exactly one message to the conversation: its identity is the \<open>messageId\<close> of \<open>t\<close> when
  that is present and non-empty and \<open>stream-<streamId>\<close> otherwise, its role is assistant,
  and its content is the concatenation, in arrival order, of the contents of the
  non-terminal fragments only. Afterwards the coordinator is idle: not streaming, buffer
  and streaming identity cleared, the transport closed and released.
\<close>

theorem stream_completion:
  assumes "\<forall>c\<in>set cs. \<not> ch_isComplete c" and "ch_isComplete t"
  shows "let r = length (sources s);
             s' = deliver r now (cs @ [t]) (startStreaming streamId conversationId s)
         in messages s' = (messages s)(conversationId \<mapsto> currentMessages s conversationId @
              [\<lparr>m_id = (case ch_messageId t of
                          Some m \<Rightarrow> if m \<noteq> [] then m else ''stream-'' @ streamId
                        | None \<Rightarrow> ''stream-'' @ streamId),
                m_role = Assistant,
                m_content = concat (map ch_content cs),
                m_timestamp = now,
                m_citations = Some []\<rparr>])
          \<and> \<not> isStreaming s' \<and> streamingContent s' = [] \<and> streamingMessageId s' = None
          \<and> eventSource s' = None \<and> \<not> is_open s' r"
proof -
  let ?r = "length (sources s)"
  let ?s0 = "startStreaming streamId conversationId s"
  let ?s1 = "?s0\<lparr>streamingContent := concat (map ch_content cs)\<rparr>"
  have buf: "deliver ?r now cs ?s0 = ?s1"
    using deliver_nonterminal [OF startStreaming_fields(10) assms(1),
        where now = now and sid1 = streamId and cid1 = conversationId and s1 = s]
    by (simp add: startStreaming_fields)
  have op: "is_open ?s1 ?r"
    using startStreaming_fields(10) [of streamId conversationId s] by (simp add: is_open_def)
  have es: "eventSource ?s1 = Some ?r"
    by (simp add: startStreaming_fields)
  have cv: "es_conversationId (sources ?s1 ! ?r) = conversationId"
    by (simp add: startStreaming_fields)
  note fin = terminal_chunk [OF op assms(2) es cv, where now = now]
  have msg: "assistantMessage t now ?s1 =
     \<lparr>m_id = (case ch_messageId t of
                 Some m \<Rightarrow> if m \<noteq> [] then m else ''stream-'' @ streamId
               | None \<Rightarrow> ''stream-'' @ streamId),
       m_role = Assistant, m_content = concat (map ch_content cs),
       m_timestamp = now, m_citations = Some []\<rparr>"
    by (simp add: assistantMessage_def final_id_def startStreaming_fields split: option.splits)
  have cur: "currentMessages ?s1 conversationId = currentMessages s conversationId"
    by (simp add: currentMessages_def startStreaming_fields)
  have all: "deliver ?r now (cs @ [t]) ?s0 = dispatch_message ?r (Chunk t) now ?s1"
    by (simp add: deliver_append buf)
  show ?thesis
    unfolding Let_def all
    using fin by (simp add: msg cur startStreaming_fields)
qed

text \<open>The theorem at the session \<open>Hello\<close>, \<open>world\<close>: the committed content is \<open>Hello\<close>.\<close>

theorem stream_completion_witness:
  "\<not> ch_isComplete hello \<and> ch_isComplete world \<and>
   map m_content (currentMessages
     (deliver 0 7 ([hello] @ [world]) (startStreaming ''s1'' ''c1'' (init_store ''tok''))) ''c1'')
     = [''Hello '']"
proof -
  have a: "\<forall>c\<in>set [hello]. \<not> ch_isComplete c" by (simp add: hello_def)
  have b: "ch_isComplete world" by (simp add: world_def)
  show ?thesis
    using a b stream_completion [OF a b, of "init_store ''tok''" 7 "''s1''" "''c1''"]
    by (simp add: Let_def currentMessages_def init_store_def hello_def)
qed

text \<open>
  C1 as stated fails: the content of the terminal fragment is not part of the message, so
  the session \<open>Hello\<close>, \<open>world\<close> does not commit the concatenation of all its fragments.
\<close>

theorem terminal_content_counterexample:
  "map m_content (currentMessages
     (deliver 0 7 [hello, world] (startStreaming ''s1'' ''c1'' (init_store ''tok''))) ''c1'')
     \<noteq> [concat (map ch_content [hello, world])]"
  by (simp add: dispatch_message_def onmessage_def is_open_def startStreaming_def init_store_def
      stopStreaming_def close_source_eq addMessage_def currentMessages_def assistantMessage_def
      hello_def world_def Let_def)

section \<open>Streaming: abort on a parse failure or a transport error\<close>

lemma malformed_chunk:
  assumes "is_open s r" "eventSource s = Some r"
  shows "messages (dispatch_message r Malformed now s) = messages s"
    and "\<not> isStreaming (dispatch_message r Malformed now s)"
    and "streamingContent (dispatch_message r Malformed now s) = []"
    and "streamingMessageId (dispatch_message r Malformed now s) = None"
    and "eventSource (dispatch_message r Malformed now s) = None"
    and "\<not> is_open (dispatch_message r Malformed now s) r"
    and "console (dispatch_message r Malformed now s) = console s @ [''Error parsing stream chunk:'']"
    and "notifications (dispatch_message r Malformed now s) = notifications s"
  using assms
  by (simp_all add: dispatch_message_def onmessage_def stopStreaming_fields console_error_def
      stopStreaming_closes)

lemma error_event:
  assumes "is_open s r" "eventSource s = Some r"
  shows "messages (dispatch_error r s) = messages s"
    and "\<not> isStreaming (dispatch_error r s)"
    and "streamingContent (dispatch_error r s) = []"
    and "streamingMessageId (dispatch_error r s) = None"
    and "eventSource (dispatch_error r s) = None"
    and "\<not> is_open (dispatch_error r s) r"
    and "console (dispatch_error r s) = console s @ [''Streaming error:'']"
    and "notifications (dispatch_error r s) = notifications s"
  using assms
  by (simp_all add: dispatch_error_def onerror_def stopStreaming_fields console_error_def
      stopStreaming_closes)

text \<open>
  C5 (as amended). If, after any non-terminal fragments, a fragment fails to parse or the
  transport reports an error event, the session ends: not streaming, buffer and streaming
  identity cleared, transport closed and released. No message is committed: the message
  lists of all conversations are what they were before the session started. The error is
  written to the console; the notification list is not touched.
\<close>

theorem stream_abort:
  assumes "\<forall>c\<in>set cs. \<not> ch_isComplete c"
  shows "let r = length (sources s);
             s1 = deliver r now cs (startStreaming streamId conversationId s);
             sp = dispatch_message r Malformed now s1;
             se = dispatch_error r s1
         in (messages sp = messages s \<and> \<not> isStreaming sp \<and> streamingContent sp = [] \<and>
             streamingMessageId sp = None \<and> eventSource sp = None \<and> \<not> is_open sp r \<and>
             console sp = console s @ [''Error parsing stream chunk:''] \<and>
             notifications sp = notifications s) \<and>
            (messages se = messages s \<and> \<not> isStreaming se \<and> streamingContent se = [] \<and>
             streamingMessageId se = None \<and> eventSource se = None \<and> \<not> is_open se r \<and>
             console se = console s @ [''Streaming error:''] \<and>
             notifications se = notifications s)"
proof -
  let ?r = "length (sources s)"
  let ?s0 = "startStreaming streamId conversationId s"
  let ?s1 = "?s0\<lparr>streamingContent := concat (map ch_content cs)\<rparr>"
  have buf: "deliver ?r now cs ?s0 = ?s1"
    using deliver_nonterminal [OF startStreaming_fields(10) assms(1),
        where now = now and sid1 = streamId and cid1 = conversationId and s1 = s]
    by (simp add: startStreaming_fields)
  have op: "is_open ?s1 ?r"
    using startStreaming_fields(10) [of streamId conversationId s] by (simp add: is_open_def)
  have es: "eventSource ?s1 = Some ?r"
    by (simp add: startStreaming_fields)
  note p = malformed_chunk [OF op es, where now = now]
  note e = error_event [OF op es]
  show ?thesis
    unfolding Let_def buf
    using p e by (simp add: startStreaming_fields)
qed

text \<open>The theorem at a session that buffered \<open>Hello\<close> before failing.\<close>

theorem stream_abort_witness:
  "\<not> ch_isComplete hello \<and>
   currentMessages (dispatch_message 0 Malformed 7
      (deliver 0 7 [hello] (startStreaming ''s1'' ''c1'' (init_store ''tok'')))) ''c1'' = [] \<and>
   console (dispatch_error 0
      (deliver 0 7 [hello] (startStreaming ''s1'' ''c1'' (init_store ''tok'')))) = [''Streaming error:'']"
proof -
  have a: "\<forall>c\<in>set [hello]. \<not> ch_isComplete c" by (simp add: hello_def)
  show ?thesis
    using a stream_abort [OF a, of "init_store ''tok''" 7 "''s1''" "''c1''"]
    by (simp add: Let_def currentMessages_def init_store_def)
qed

text \<open>
  C5 as stated fails: after a fragment that does not parse, no error notification exists.
\<close>

theorem abort_not_notified_counterexample:
  "\<not> (\<exists>n \<in> set (notifications (dispatch_message 0 Malformed 7
          (deliver 0 7 [hello] (startStreaming ''s1'' ''c1'' (init_store ''tok''))))).
        n_type n = Error)"
  by (simp add: dispatch_message_def onmessage_def is_open_def startStreaming_def init_store_def
      stopStreaming_def close_source_eq console_error_def hello_def Let_def)

section \<open>Optimistic insertion and reconciliation\<close>

lemma findIndex_first:
  "\<forall>y\<in>set xs. \<not> P y \<Longrightarrow> P x \<Longrightarrow> findIndex P (xs @ x # ys) = Some (length xs)"
  by (induction xs) simp_all

lemma currentMessages_addMessage:
  "currentMessages (addMessage c m s) c = currentMessages s c @ [m]"
  by (simp add: addMessage_def currentMessages_def)

lemma currentMessages_append_all:
  "currentMessages (foldl (\<lambda>s m. addMessage c m s) s later) c = currentMessages s c @ later"
  by (induction later arbitrary: s) (simp_all add: currentMessages_addMessage)

lemma spread_as_updates:
  "spread m (as_updates own m1) =
     m1\<lparr>m_citations := (case m_citations m1 of
                            Some x \<Rightarrow> Some x
                          | None \<Rightarrow> if own then None else m_citations m)\<rparr>"
  by (simp add: spread_def as_updates_def split: option.splits)

text \<open>
  C3 (as amended). A message appended optimistically gets the temporary identity \<open>t1\<close>
  that \<open>addOptimisticMessage\<close> returns. If \<open>t1\<close> is not yet the identity of a message of
  the conversation, then reconciling it by \<open>updateMessage\<close> with the final message \<open>m1\<close>,
  also after further messages \<open>later\<close> were appended, replaces the optimistic entry in
  place and adds none: the list is the earlier messages, then \<open>m1\<close> at the position of
  the optimistic entry and under the identity of \<open>m1\<close>, then the later messages, and has
  the length it had before the reconciliation. Its citations are those of \<open>m1\<close>;
  if \<open>m1\<close> has none, they are the optimistic ones when the object \<open>m1\<close> has no
  \<open>citations\<close> property, and none when it has the property with value undefined.
\<close>

theorem optimistic_then_reconcile:
  assumes "t1 = fst (addOptimisticMessage c partial now s)"
    and "t1 \<notin> m_id ` set (currentMessages s c)"
  shows "let old = currentMessages s c;
             opt = optimisticMessage partial now;
             s1 = snd (addOptimisticMessage c partial now s);
             s2 = foldl (\<lambda>s m. addMessage c m s) s1 later;
             s3 = updateMessage c t1 (as_updates own m1) s2;
             final = m1\<lparr>m_citations := (case m_citations m1 of
                                             Some x \<Rightarrow> Some x
                                           | None \<Rightarrow> if own then None else m_citations opt)\<rparr>
         in m_id opt = t1 \<and>
            currentMessages s1 c = old @ [opt] \<and>
            currentMessages s2 c = old @ [opt] @ later \<and>
            currentMessages s3 c = old @ [final] @ later \<and>
            length (currentMessages s3 c) = length (currentMessages s2 c) \<and>
            currentMessages s3 c ! length old = final \<and>
            m_id final = m_id m1"
proof -
  let ?old = "currentMessages s c"
  let ?o = "optimisticMessage partial now"
  let ?s1 = "snd (addOptimisticMessage c partial now s)"
  let ?s2 = "foldl (\<lambda>s m. addMessage c m s) ?s1 later"
  have t1: "m_id ?o = t1" using assms(1) by (simp add: addOptimisticMessage_def)
  have cur1: "currentMessages ?s1 c = ?old @ [?o]"
    by (simp add: addOptimisticMessage_def currentMessages_addMessage)
  have cur2: "currentMessages ?s2 c = ?old @ ?o # later"
    by (simp add: currentMessages_append_all cur1)
  have "\<forall>y\<in>set ?old. \<not> m_id y = t1" using assms(2) by auto
  then have idx: "findIndex (\<lambda>msg. m_id msg = t1) (?old @ ?o # later) = Some (length ?old)"
    using t1 by (rule findIndex_first)
  have cur3: "currentMessages (updateMessage c t1 (as_updates own m1) ?s2) c =
                ?old @ spread ?o (as_updates own m1) # later"
    by (simp add: updateMessage_def cur2 idx Let_def currentMessages_def [of "_\<lparr>messages := _\<rparr>"])
  show ?thesis
    unfolding Let_def using t1 cur1 cur2 cur3 by (simp add: spread_as_updates)
qed

text \<open>
  The theorem at a conversation holding one message, with the clock at 5 and a reply
  appended before the reconciliation.
\<close>

theorem optimistic_then_reconcile_witness:
  "''optimistic-5'' = fst (addOptimisticMessage ''c1'' partialTest 5 (setMessages ''c1'' [msgA] (init_store ''tok''))) \<and>
   ''optimistic-5'' \<notin> m_id ` set (currentMessages (setMessages ''c1'' [msgA] (init_store ''tok'')) ''c1'') \<and>
   currentMessages (updateMessage ''c1'' ''optimistic-5'' (as_updates False msgFinal)
      (foldl (\<lambda>s m. addMessage ''c1'' m s)
         (snd (addOptimisticMessage ''c1'' partialTest 5 (setMessages ''c1'' [msgA] (init_store ''tok''))))
         [msgReply])) ''c1''
    = [msgA, msgFinal, msgReply]"
proof -
  let ?s = "setMessages ''c1'' [msgA] (init_store ''tok'')"
  have a: "''optimistic-5'' = fst (addOptimisticMessage ''c1'' partialTest 5 ?s)"
    by (simp add: addOptimisticMessage_def optimisticMessage_def spread_def partialTest_def
        string_of_nat.simps)
  have cur: "currentMessages ?s ''c1'' = [msgA]"
    by (simp add: currentMessages_def setMessages_def)
  have b: "''optimistic-5'' \<notin> m_id ` set (currentMessages ?s ''c1'')"
    unfolding cur by (simp add: msgA_def)
  have c: "m_citations (optimisticMessage partialTest 5) = None"
    by (simp add: optimisticMessage_def spread_def partialTest_def)
  have d: "m_citations msgFinal = None" by (simp add: msgFinal_def)
  from optimistic_then_reconcile [OF a b, of "[msgReply]" False msgFinal]
  have "currentMessages (updateMessage ''c1'' ''optimistic-5'' (as_updates False msgFinal)
      (foldl (\<lambda>s m. addMessage ''c1'' m s)
         (snd (addOptimisticMessage ''c1'' partialTest 5 ?s)) [msgReply])) ''c1''
      = [msgA] @ [msgFinal\<lparr>m_citations := None\<rparr>] @ [msgReply]"
    unfolding Let_def cur c d by simp
  moreover have "msgFinal\<lparr>m_citations := None\<rparr> = msgFinal" by (simp add: msgFinal_def)
  ultimately show ?thesis using a b by simp
qed

text \<open>
  C3 as stated fails: two optimistic messages appended while the clock reads 5 both get
  the identity \<open>optimistic-5\<close>. Reconciling the second one overwrites the entry of the
  first and leaves the optimistic entry of the second in the list, at its position.
\<close>

theorem same_clock_counterexample:
  "fst (addOptimisticMessage ''c1'' partialSecond 5
      (snd (addOptimisticMessage ''c1'' partialFirst 5 (init_store ''tok'')))) = ''optimistic-5'' \<and>
   map m_id (currentMessages same_clock ''c1'') = [''optimistic-5'', ''optimistic-5''] \<and>
   map m_content (currentMessages same_clock ''c1'') = [''first'', ''second''] \<and>
   map m_id (currentMessages
     (updateMessage ''c1'' ''optimistic-5'' (as_updates False msgFinal2) same_clock) ''c1'')
     = [''m2'', ''optimistic-5''] \<and>
   map m_content (currentMessages
     (updateMessage ''c1'' ''optimistic-5'' (as_updates False msgFinal2) same_clock) ''c1'')
     = [''second final'', ''second'']"
  by (simp add: same_clock_def addOptimisticMessage_def optimisticMessage_def addMessage_def
      updateMessage_def currentMessages_def init_store_def spread_def as_updates_def
      partialFirst_def partialSecond_def msgFinal2_def string_of_nat.simps Let_def)

section \<open>One live session per coordinator\<close>

lemma nth_list_update_if:
  "xs[i := x] ! j = (if i = j \<and> i < length xs then x else xs ! j)"
  by (cases "i < length xs") (simp_all add: nth_list_update list_update_beyond)

lemma is_open_close_source:
  "is_open (close_source r s) r' \<longleftrightarrow> is_open s r' \<and> r' \<noteq> r"
  by (auto simp: close_source_eq is_open_def nth_list_update_if)

lemma sources_startStreaming:
  "sources (startStreaming sid cid s) =
     (case eventSource s of
        None \<Rightarrow> sources s
      | Some r0 \<Rightarrow> (sources s)[r0 := (sources s ! r0)\<lparr>es_closed := True\<rparr>]) @
     [\<lparr>es_url = stream_url cid sid (authToken s), es_closed = False, es_conversationId = cid\<rparr>]"
  by (simp add: startStreaming_def close_source_eq Let_def split: option.splits)

lemma is_open_startStreaming:
  assumes "coordinator_inv s"
  shows "is_open (startStreaming sid cid s) r \<longleftrightarrow> r = length (sources s)"
proof (cases "r < length (sources s)")
  case True
  have "\<not> is_open (startStreaming sid cid s) r"
  proof (cases "eventSource s")
    case None
    with assms have "\<not> is_open s r" by (simp add: coordinator_inv_def)
    with True None show ?thesis
      by (simp add: is_open_def sources_startStreaming nth_append)
  next
    case (Some r0)
    show ?thesis
    proof (cases "r = r0")
      case True
      with \<open>r < length (sources s)\<close> Some show ?thesis
        by (simp add: is_open_def sources_startStreaming nth_append)
    next
      case False
      with assms Some have "\<not> is_open s r" by (auto simp: coordinator_inv_def)
      with False \<open>r < length (sources s)\<close> Some show ?thesis
        by (simp add: is_open_def sources_startStreaming nth_append)
    qed
  qed
  with True show ?thesis by simp
next
  case False
  then show ?thesis
    by (cases "eventSource s")
       (auto simp: is_open_def sources_startStreaming nth_append)
qed

lemma is_open_stopStreaming:
  assumes "coordinator_inv s"
  shows "\<not> is_open (stopStreaming s) r"
proof (cases "eventSource s")
  case None
  with assms have "\<not> is_open s r" by (simp add: coordinator_inv_def)
  with None show ?thesis by (simp add: stopStreaming_def is_open_def Let_def)
next
  case (Some r0)
  show ?thesis
  proof (cases "r = r0")
    case True
    with Some show ?thesis by (simp add: stopStreaming_closes)
  next
    case False
    with assms Some have "\<not> is_open s r" by (auto simp: coordinator_inv_def)
    with False Some show ?thesis
      by (simp add: stopStreaming_def is_open_def close_source_eq Let_def)
  qed
qed

lemma inv_startStreaming:
  assumes "coordinator_inv s"
  shows "coordinator_inv (startStreaming sid cid s)"
  unfolding coordinator_inv_def
  using is_open_startStreaming [OF assms, of sid cid] by (simp add: startStreaming_fields)

lemma inv_stopStreaming:
  assumes "coordinator_inv s"
  shows "coordinator_inv (stopStreaming s)"
  unfolding coordinator_inv_def
  using is_open_stopStreaming [OF assms] by (simp add: stopStreaming_fields)

lemma inv_cong:
  "sources s' = sources s \<Longrightarrow> eventSource s' = eventSource s \<Longrightarrow>
   streamingMessageId s' = streamingMessageId s \<Longrightarrow> coordinator_inv s' = coordinator_inv s"
  by (simp add: coordinator_inv_def is_open_def)

lemma inv_irrelevant:
  "coordinator_inv s \<Longrightarrow> sources s' = sources s \<Longrightarrow> eventSource s' = eventSource s \<Longrightarrow>
   streamingMessageId s' = streamingMessageId s \<Longrightarrow> coordinator_inv s'"
  using inv_cong [of s' s] by blast

lemma inv_addMessage: "coordinator_inv s \<Longrightarrow> coordinator_inv (addMessage c m s)"
  by (erule inv_irrelevant) (simp_all add: addMessage_def)

lemma inv_console_error: "coordinator_inv s \<Longrightarrow> coordinator_inv (console_error l s)"
  by (erule inv_irrelevant) (simp_all add: console_error_def)

lemma inv_onmessage: "coordinator_inv s \<Longrightarrow> coordinator_inv (onmessage c ev now s)"
proof (cases ev)
  case Malformed
  assume "coordinator_inv s"
  with Malformed show ?thesis
    by (simp add: onmessage_def inv_stopStreaming inv_console_error)
next
  case (Chunk chunk)
  assume i: "coordinator_inv s"
  show ?thesis
  proof (cases "ch_isComplete chunk")
    case True
    with Chunk i show ?thesis
      by (simp add: onmessage_def inv_stopStreaming inv_addMessage)
  next
    case False
    have "coordinator_inv (s\<lparr>streamingContent := streamingContent s @ ch_content chunk\<rparr>)"
      using i by (rule inv_irrelevant) simp_all
    with Chunk False show ?thesis by (simp add: onmessage_def)
  qed
qed

lemma inv_step: "coordinator_inv s \<Longrightarrow> coordinator_inv (step s e)"
proof (cases e)
  case (StartStreaming x1 x2)
  assume "coordinator_inv s" with StartStreaming show ?thesis by (simp add: inv_startStreaming)
next
  case StopStreaming
  assume "coordinator_inv s" with StopStreaming show ?thesis by (simp add: inv_stopStreaming)
next
  case (OnMessage r ev now)
  assume "coordinator_inv s" with OnMessage show ?thesis
    by (simp add: dispatch_message_def inv_onmessage)
next
  case (OnError r)
  assume "coordinator_inv s" with OnError show ?thesis
    by (simp add: dispatch_error_def onerror_def inv_stopStreaming inv_console_error)
next
  case (AddMessage c m)
  assume "coordinator_inv s" with AddMessage show ?thesis by (simp add: inv_addMessage)
next
  case (UpdateMessage c i u)
  assume i: "coordinator_inv s"
  have "coordinator_inv (updateMessage c i u s)"
    using i by (rule inv_irrelevant) (simp_all add: updateMessage_def Let_def split: option.splits)
  with UpdateMessage show ?thesis by simp
next
  case (RemoveMessage c i)
  assume i: "coordinator_inv s"
  have "coordinator_inv (removeMessage c i s)"
    using i by (rule inv_irrelevant) (simp_all add: removeMessage_def)
  with RemoveMessage show ?thesis by simp
next
  case (SetMessages c ms)
  assume i: "coordinator_inv s"
  have "coordinator_inv (setMessages c ms s)"
    using i by (rule inv_irrelevant) (simp_all add: setMessages_def)
  with SetMessages show ?thesis by simp
next
  case (AddOptimistic c p now)
  assume "coordinator_inv s" with AddOptimistic show ?thesis
    by (simp add: addOptimisticMessage_def inv_addMessage)
qed

lemma inv_foldl: "coordinator_inv s \<Longrightarrow> coordinator_inv (foldl step s evs)"
  by (induction evs arbitrary: s) (simp_all add: inv_step)

lemma inv_run: "coordinator_inv s \<Longrightarrow> coordinator_inv (run s evs)"
  by (simp add: run_def inv_foldl)

lemma inv_init: "coordinator_inv (init_store tok)"
  by (simp add: coordinator_inv_def init_store_def is_open_def)

text \<open>At most one source is open, and a live session has its streaming identity.\<close>

lemma live_has_messageId:
  "is_open (run (init_store tok) evs) r \<Longrightarrow>
   eventSource (run (init_store tok) evs) = Some r \<and>
   streamingMessageId (run (init_store tok) evs) \<noteq> None"
  using inv_run [OF inv_init, of tok evs] unfolding coordinator_inv_def by blast

text \<open>A closed source stays closed.\<close>

lemma closed_close_source: "closed_at s r \<Longrightarrow> closed_at (close_source r' s) r"
  by (auto simp: closed_at_def close_source_eq nth_list_update_if)

lemma closed_irrelevant: "closed_at s r \<Longrightarrow> sources s' = sources s \<Longrightarrow> closed_at s' r"
  by (simp add: closed_at_def)

lemma closed_startStreaming: "closed_at s r \<Longrightarrow> closed_at (startStreaming sid cid s) r"
  by (cases "eventSource s")
     (simp_all add: closed_at_def sources_startStreaming nth_append nth_list_update_if)

lemma closed_stopStreaming: "closed_at s r \<Longrightarrow> closed_at (stopStreaming s) r"
  by (cases "eventSource s")
     (simp_all add: closed_at_def stopStreaming_def close_source_eq Let_def nth_list_update_if)

lemma closed_addMessage: "closed_at s r \<Longrightarrow> closed_at (addMessage c m s) r"
  by (erule closed_irrelevant) (simp add: addMessage_def)

lemma closed_console_error: "closed_at s r \<Longrightarrow> closed_at (console_error l s) r"
  by (erule closed_irrelevant) (simp add: console_error_def)

lemma closed_onmessage:
  assumes "closed_at s r"
  shows "closed_at (onmessage c ev now s) r"
proof (cases ev)
  case Malformed
  with assms show ?thesis
    by (simp add: onmessage_def closed_stopStreaming closed_console_error)
next
  case (Chunk chunk)
  have "closed_at (s\<lparr>streamingContent := streamingContent s @ ch_content chunk\<rparr>) r"
    using assms by (rule closed_irrelevant) simp
  with Chunk assms show ?thesis
    by (simp add: onmessage_def closed_stopStreaming closed_addMessage)
qed

lemma closed_step:
  assumes "closed_at s r"
  shows "closed_at (step s e) r"
proof (cases e)
  case (StartStreaming x1 x2)
  with assms show ?thesis by (simp add: closed_startStreaming)
next
  case StopStreaming
  with assms show ?thesis by (simp add: closed_stopStreaming)
next
  case (OnMessage r' ev now)
  with assms show ?thesis by (simp add: dispatch_message_def closed_onmessage)
next
  case (OnError r')
  with assms show ?thesis
    by (simp add: dispatch_error_def onerror_def closed_stopStreaming closed_console_error)
next
  case (AddMessage c m)
  with assms show ?thesis by (simp add: closed_addMessage)
next
  case (UpdateMessage c i u)
  have "closed_at (updateMessage c i u s) r"
    using assms by (rule closed_irrelevant) (simp add: updateMessage_def Let_def split: option.splits)
  with UpdateMessage show ?thesis by simp
next
  case (RemoveMessage c i)
  have "closed_at (removeMessage c i s) r"
    using assms by (rule closed_irrelevant) (simp add: removeMessage_def)
  with RemoveMessage show ?thesis by simp
next
  case (SetMessages c ms)
  have "closed_at (setMessages c ms s) r"
    using assms by (rule closed_irrelevant) (simp add: setMessages_def)
  with SetMessages show ?thesis by simp
next
  case (AddOptimistic c p now)
  with assms show ?thesis by (simp add: addOptimisticMessage_def closed_addMessage)
qed

lemma closed_foldl: "closed_at s r \<Longrightarrow> closed_at (foldl step s evs) r"
  by (induction evs arbitrary: s) (simp_all add: closed_step)

lemma closed_run: "closed_at s r \<Longrightarrow> closed_at (run s evs) r"
  by (simp add: run_def closed_foldl)

lemma closed_not_open: "closed_at s r \<Longrightarrow> \<not> is_open s r"
  by (simp add: closed_at_def is_open_def)

text \<open>
  C2. Let session \<open>s1\<close> (source \<open>r1\<close>) be live in a state reached from the initial
  store. \<open>startStreaming\<close> for \<open>s2\<close> closes the transport of \<open>s1\<close>, empties the buffer
  and makes the new source the only open one. From then on, whatever else happens to the
  store, at most one source is open and an event addressed to \<open>r1\<close>, message or error,
  leaves the state as it is.
\<close>

theorem restart_supersedes:
  assumes "s = run (init_store tok) evs" and "eventSource s = Some r1"
  shows "let s' = startStreaming streamId2 conversationId2 s;
             r2 = length (sources s)
         in is_open s r1 \<and> es_closed (sources s' ! r1) \<and> streamingContent s' = [] \<and>
            eventSource s' = Some r2 \<and> r2 \<noteq> r1 \<and>
            (\<forall>r. is_open s' r \<longleftrightarrow> r = r2) \<and>
            (\<forall>evs'. let s'' = run s' evs'
                    in (\<forall>r r'. is_open s'' r \<and> is_open s'' r' \<longrightarrow> r = r') \<and>
                       (\<forall>ev now. dispatch_message r1 ev now s'' = s'') \<and>
                       dispatch_error r1 s'' = s'')"
proof -
  let ?s' = "startStreaming streamId2 conversationId2 s"
  have i: "coordinator_inv s"
    unfolding assms(1) by (rule inv_run [OF inv_init])
  from i assms(2) have o1: "is_open s r1"
    unfolding coordinator_inv_def by blast
  then have lt: "r1 < length (sources s)" by (simp add: is_open_def)
  have opn: "\<And>r. is_open ?s' r \<longleftrightarrow> r = length (sources s)"
    using i by (rule is_open_startStreaming)
  from lt opn [of r1] have cl: "closed_at ?s' r1"
    by (simp add: closed_at_def is_open_def startStreaming_fields)
  have i': "coordinator_inv ?s'" using i by (rule inv_startStreaming)
  have one: "\<forall>r r'. is_open (run ?s' evs') r \<and> is_open (run ?s' evs') r' \<longrightarrow> r = r'" for evs'
  proof -
    have "coordinator_inv (run ?s' evs')" using i' by (rule inv_run)
    then show ?thesis
      unfolding coordinator_inv_def by (metis option.inject)
  qed
  have stale: "\<not> is_open (run ?s' evs') r1" for evs'
  proof -
    have "closed_at (run ?s' evs') r1" using cl by (rule closed_run)
    then show ?thesis by (rule closed_not_open)
  qed
  have msg: "dispatch_message r1 ev now (run ?s' evs') = run ?s' evs'" for ev now evs'
    using stale [of evs'] by (simp add: dispatch_message_def)
  have err: "dispatch_error r1 (run ?s' evs') = run ?s' evs'" for evs'
    using stale [of evs'] by (simp add: dispatch_error_def)
  have a: "es_closed (sources ?s' ! r1)" using cl by (simp add: closed_at_def)
  have b: "streamingContent ?s' = []" by (simp add: startStreaming_fields)
  have c: "eventSource ?s' = Some (length (sources s))" by (simp add: startStreaming_fields)
  have d: "length (sources s) \<noteq> r1" using lt by simp
  show ?thesis
    unfolding Let_def
    using o1 a b c d opn one msg err by blast
qed

text \<open>
  The theorem after session \<open>s1\<close> buffered \<open>Hello\<close>: a late terminal fragment of
  \<open>s1\<close> does not touch the buffer of \<open>s2\<close>.
\<close>

theorem restart_supersedes_witness:
  "eventSource (run (init_store ''tok'') first_session) = Some 0 \<and>
   streamingContent (run (init_store ''tok'') first_session) = ''Hello '' \<and>
   streamingContent (dispatch_message 0 (Chunk world) 9
      (run (startStreaming ''s2'' ''c1'' (run (init_store ''tok'') first_session))
           [OnMessage 1 (Chunk hello) 8])) = ''Hello ''"
proof -
  let ?s = "run (init_store ''tok'') first_session"
  have a: "eventSource ?s = Some 0"
    by (simp add: run_def first_session_def dispatch_message_def onmessage_def is_open_def
        startStreaming_def init_store_def hello_def Let_def)
  have b: "streamingContent ?s = ''Hello ''"
    by (simp add: run_def first_session_def dispatch_message_def onmessage_def is_open_def
        startStreaming_def init_store_def hello_def Let_def)
  let ?s2 = "run (startStreaming ''s2'' ''c1'' ?s) [OnMessage 1 (Chunk hello) 8]"
  have c: "streamingContent ?s2 = ''Hello ''"
    by (simp add: run_def first_session_def dispatch_message_def onmessage_def is_open_def
        startStreaming_def close_source_eq init_store_def hello_def Let_def)
  from restart_supersedes [OF refl a, of "''s2''" "''c1''"]
  have "dispatch_message 0 (Chunk world) 9 ?s2 = ?s2"
    unfolding Let_def by blast
  with a b c show ?thesis by simp
qed

text \<open>The handler itself carries no staleness check: called directly on the state of
  a later session, it writes to that session's buffer.\<close>

lemma stale_handler_unguarded:
  "streamingContent (onmessage ''c1'' (Chunk hello) 9
      (startStreaming ''s2'' ''c1'' (run (init_store ''tok'') first_session))) = ''Hello ''"
  by (simp add: onmessage_def startStreaming_fields hello_def)

section \<open>The files store: progress updates\<close>

text \<open>
  C10. If the queue has an entry under \<open>fileId\<close>, \<open>updateFileProgress fileId p\<close> stores
  \<open>p\<close> as its upload progress and sets its status to completed exactly when \<open>p = 100\<close>
  and to uploading otherwise, whatever the status was before; the keys keep their order
  and every other entry is untouched. If there is no such entry, the queue is unchanged.
\<close>

theorem updateFileProgress_status:
  "(map_of q fileId = Some file \<longrightarrow>
      map_of (updateFileProgress fileId p q) fileId =
        Some (file\<lparr>f_uploadProgress := Some p,
                   f_status := (if p = 100 then Completed else Uploading)\<rparr>) \<and>
      map fst (updateFileProgress fileId p q) = map fst q \<and>
      (\<forall>k. k \<noteq> fileId \<longrightarrow> map_of (updateFileProgress fileId p q) k = map_of q k)) \<and>
   (map_of q fileId = None \<longrightarrow> updateFileProgress fileId p q = q)"
proof (intro conjI impI)
  assume f: "map_of q fileId = Some file"
  then have dom: "fileId \<in> fst ` set q"
    by (metis domI dom_map_of_conv_image_fst)
  show "map_of (updateFileProgress fileId p q) fileId =
        Some (file\<lparr>f_uploadProgress := Some p,
                   f_status := (if p = 100 then Completed else Uploading)\<rparr>)"
    using f by (simp add: updateFileProgress_def update_conv')
  show "map fst (updateFileProgress fileId p q) = map fst q"
    using f dom by (simp add: updateFileProgress_def update_keys)
  show "\<forall>k. k \<noteq> fileId \<longrightarrow> map_of (updateFileProgress fileId p q) k = map_of q k"
    using f by (simp add: updateFileProgress_def update_conv')
next
  assume "map_of q fileId = None"
  then show "updateFileProgress fileId p q = q"
    by (simp add: updateFileProgress_def)
qed

text \<open>
  The theorem at a completed entry: progress 40 moves it back to uploading, progress 100
  completes it, and an unknown identity changes nothing.
\<close>

theorem updateFileProgress_status_witness:
  "map_of [(''upload-1'', entry1)] ''upload-1'' = Some entry1 \<and>
   map_of (updateFileProgress ''upload-1'' 40 [(''upload-1'', entry1)]) ''upload-1'' =
     Some (entry1\<lparr>f_uploadProgress := Some 40, f_status := Uploading\<rparr>) \<and>
   map_of (updateFileProgress ''upload-1'' 100 [(''upload-1'', entry1)]) ''upload-1'' =
     Some (entry1\<lparr>f_uploadProgress := Some 100, f_status := Completed\<rparr>) \<and>
   map_of [(''upload-1'', entry1)] ''upload-2'' = None \<and>
   updateFileProgress ''upload-2'' 40 [(''upload-1'', entry1)] = [(''upload-1'', entry1)]"
proof -
  let ?q = "[(''upload-1'', entry1)]"
  have a: "map_of ?q ''upload-1'' = Some entry1" by simp
  have b: "map_of ?q ''upload-2'' = None" by simp
  from updateFileProgress_status [of ?q "''upload-1''" entry1 40] a
  have c: "map_of (updateFileProgress ''upload-1'' 40 ?q) ''upload-1'' =
     Some (entry1\<lparr>f_uploadProgress := Some 40, f_status := Uploading\<rparr>)"
    by simp
  from updateFileProgress_status [of ?q "''upload-1''" entry1 100] a
  have d: "map_of (updateFileProgress ''upload-1'' 100 ?q) ''upload-1'' =
     Some (entry1\<lparr>f_uploadProgress := Some 100, f_status := Completed\<rparr>)"
    by simp
  from updateFileProgress_status [of ?q "''upload-2''" entry1 40] b
  have e: "updateFileProgress ''upload-2'' 40 ?q = ?q"
    by blast
  from a b c d e show ?thesis by blast
qed

section \<open>Array helpers\<close>

lemma includes_arr_set: "includes_arr xs y \<longleftrightarrow> y \<in> set xs"
  by (induction xs) auto

lemma some_set: "some xs P \<longleftrightarrow> (\<exists>x\<in>set xs. P x)"
  by (induction xs) auto

lemma endsWith_suffix: "endsWith s ext \<longleftrightarrow> suffix ext s"
proof
  assume "endsWith s ext"
  then have "s = take (length s - length ext) s @ ext"
    by (metis append_take_drop_id endsWith_def)
  then show "suffix ext s" by (rule suffixI)
next
  assume "suffix ext s"
  then obtain zs where "s = zs @ ext" by (auto simp: suffix_def)
  then show "endsWith s ext" by (simp add: endsWith_def)
qed

text \<open>\<open>validateFile\<close> of the store has no list of extensions: only the MIME type counts.\<close>

lemma store_validateFile_mime_only:
  "file_size file \<le> maxFileSize \<Longrightarrow>
   store_validateFile maxFileSize file = None \<longleftrightarrow> file_type file \<in> set store_allowedTypes"
  by (simp add: store_validateFile_def includes_arr_set)

section \<open>The upload area: the count limit\<close>

lemma validate_loop_eq:
  "validate_loop fmt m files v e =
     (v @ filter (accepts m) files,
      e @ map (rejection fmt m) (filter (\<lambda>f. \<not> accepts m f) files))"
  by (induction files arbitrary: v e) (auto simp: accepts_def rejection_def)

lemma processFiles_over:
  "length (props_files p) + length files > props_maxFiles p \<Longrightarrow>
   processFiles fmt p files = [UploadError (count_error (props_maxFiles p))]"
  by (simp add: processFiles_def)

lemma processFiles_within:
  "length (props_files p) + length files \<le> props_maxFiles p \<Longrightarrow>
   processFiles fmt p files =
     (if filter (\<lambda>f. \<not> accepts (props_maxFileSize p) f) files = [] then []
      else [UploadError (join '', '' (map (rejection fmt (props_maxFileSize p))
              (filter (\<lambda>f. \<not> accepts (props_maxFileSize p) f) files)))]) @
     (if filter (accepts (props_maxFileSize p)) files = [] then []
      else [FilesSelected (filter (accepts (props_maxFileSize p)) files)])"
  by (simp add: processFiles_def validate_loop_eq)

lemma props_of_simps [simp]:
  "length (props_files (props_of a b s)) = length (uploadedFiles s)"
  "props_maxFiles (props_of a b s) = b"
  "props_maxFileSize (props_of a b s) = a"
  by (simp_all add: props_of_def entries_def)

lemma count_error_contains:
  "sublist (''Maximum '' @ string_of_nat n @ '' files'') (count_error n)"
proof -
  have "count_error n = [] @ (''Maximum '' @ string_of_nat n @ '' files'') @ '' allowed''"
    by (simp add: count_error_def)
  then show ?thesis unfolding sublist_def by blast
qed

text \<open>
  C4. When the entries already listed plus the files of the batch exceed \<open>maxFiles\<close>,
  the upload area emits a single \<open>upload-error\<close> whose text contains
  \<open>Maximum <maxFiles> files\<close> and nothing else; the chat window records the text and
  its list of files is unchanged, in content and in length.
\<close>

theorem batch_over_limit_rejected:
  assumes "length (uploadedFiles s) + length files > maxFiles"
  shows "let s' = select_files fmt maxFileSize maxFiles gen files s
         in processFiles fmt (props_of maxFileSize maxFiles s) files =
              [UploadError (count_error maxFiles)] \<and>
            sublist (''Maximum '' @ string_of_nat maxFiles @ '' files'') (count_error maxFiles) \<and>
            s' = s\<lparr>error := Some (count_error maxFiles)\<rparr> \<and>
            uploadedFiles s' = uploadedFiles s \<and> entries s' = entries s \<and>
            length (uploadedFiles s') = length (uploadedFiles s)"
proof -
  have p: "processFiles fmt (props_of maxFileSize maxFiles s) files =
             [UploadError (count_error maxFiles)]"
    using assms processFiles_over [of "props_of maxFileSize maxFiles s" files fmt] by simp
  then have s': "select_files fmt maxFileSize maxFiles gen files s =
                   s\<lparr>error := Some (count_error maxFiles)\<rparr>"
    by (simp add: select_files_def handleUploadError_def)
  show ?thesis
    unfolding Let_def s' using p count_error_contains [of maxFiles]
    by (simp add: entries_def)
qed

text \<open>The theorem with \<open>maxFiles = 2\<close>, two entries listed and one file more.\<close>

theorem batch_over_limit_rejected_witness:
  "length (uploadedFiles two_files) + length [file_new] > 2 \<and>
   error (select_files kb default_maxFileSize 2 ids [file_new] two_files) =
     Some ''Maximum 2 files allowed'' \<and>
   length (uploadedFiles (select_files kb default_maxFileSize 2 ids [file_new] two_files)) = 2"
proof -
  have a: "length (uploadedFiles two_files) + length [file_new] > 2"
    by (simp add: two_files_def init_window_def)
  have m: "count_error 2 = ''Maximum 2 files allowed''"
    by (simp add: count_error_def string_of_nat.simps)
  have l: "length (uploadedFiles two_files) = 2"
    by (simp add: two_files_def init_window_def)
  from batch_over_limit_rejected [OF a, of kb default_maxFileSize ids]
  show ?thesis using a by (simp add: Let_def m l)
qed

section \<open>The upload area: the type check\<close>

lemma isValidFileType_iff:
  "isValidFileType f \<longleftrightarrow>
     file_type f \<in> set allowedTypes \<or>
     (\<exists>ext\<in>set allowedExtensions. suffix ext (toLowerCase (file_name f)))"
  by (simp add: isValidFileType_def includes_arr_set some_set endsWith_suffix)

text \<open>
  C8. The type check of the upload area accepts a file exactly when its MIME type is in
  the list of allowed types or its lower-cased name ends with one of the allowed
  extensions; either alone is enough. Consequently, when the count limit admits the
  batch, the files the component hands on are exactly the files of the batch that are
  within the size limit and pass on MIME type or on extension.
\<close>

theorem type_check_mime_or_extension:
  "(isValidFileType f \<longleftrightarrow>
      file_type f \<in> set allowedTypes \<or>
      (\<exists>ext\<in>set allowedExtensions. suffix ext (toLowerCase (file_name f)))) \<and>
   (length (props_files p) + length files \<le> props_maxFiles p \<longrightarrow>
      selected (processFiles fmt p files) =
        filter (\<lambda>f. file_size f \<le> props_maxFileSize p \<and>
                    (file_type f \<in> set allowedTypes \<or>
                     (\<exists>ext\<in>set allowedExtensions. suffix ext (toLowerCase (file_name f)))))
          files)"
proof (intro conjI impI)
  show "isValidFileType f \<longleftrightarrow>
      file_type f \<in> set allowedTypes \<or>
      (\<exists>ext\<in>set allowedExtensions. suffix ext (toLowerCase (file_name f)))"
    by (rule isValidFileType_iff)
next
  assume c: "length (props_files p) + length files \<le> props_maxFiles p"
  have acc: "accepts (props_maxFileSize p) =
     (\<lambda>f. file_size f \<le> props_maxFileSize p \<and>
          (file_type f \<in> set allowedTypes \<or>
           (\<exists>ext\<in>set allowedExtensions. suffix ext (toLowerCase (file_name f)))))"
    by (rule ext) (simp add: accepts_def isValidFileType_iff)
  have "selected (processFiles fmt p files) = filter (accepts (props_maxFileSize p)) files"
    by (simp add: processFiles_within [OF c])
  then show "selected (processFiles fmt p files) =
        filter (\<lambda>f. file_size f \<le> props_maxFileSize p \<and>
                    (file_type f \<in> set allowedTypes \<or>
                     (\<exists>ext\<in>set allowedExtensions. suffix ext (toLowerCase (file_name f)))))
          files"
    by (simp only: acc)
qed

lemma lower_notes: "toLowerCase ''notes.TXT'' = ''notes.txt''"
  by (simp add: toLowerCase_def lower_char_def)

text \<open>
  The theorem at \<open>notes.TXT\<close> with an empty MIME type: it passes on its extension and
  is handed on.
\<close>

theorem type_check_mime_or_extension_witness:
  "length (props_files (props_of 1024 5 init_window)) + length [file_notes] \<le> 5 \<and>
   file_type file_notes \<notin> set allowedTypes \<and>
   suffix ''.txt'' (toLowerCase (file_name file_notes)) \<and>
   isValidFileType file_notes \<and>
   selected (processFiles kb (props_of 1024 5 init_window) [file_notes]) = [file_notes]"
proof -
  let ?p = "props_of 1024 5 init_window"
  have a: "length (props_files ?p) + length [file_notes] \<le> props_maxFiles ?p"
    by (simp add: init_window_def)
  have b: "file_type file_notes \<notin> set allowedTypes"
    by (simp add: file_notes_def allowedTypes_def)
  have "''notes.txt'' = ''notes'' @ ''.txt''" by simp
  then have c: "suffix ''.txt'' (toLowerCase (file_name file_notes))"
    unfolding file_notes_def by (simp add: lower_notes suffix_def)
  have d: "''.txt'' \<in> set allowedExtensions" by (simp add: allowedExtensions_def)
  note t = type_check_mime_or_extension [of file_notes ?p "[file_notes]" kb]
  from t c d have v: "isValidFileType file_notes" by blast
  have sz: "file_size file_notes \<le> props_maxFileSize ?p" by (simp add: file_notes_def)
  from t a have "selected (processFiles kb ?p [file_notes]) =
      filter (\<lambda>f. file_size f \<le> props_maxFileSize ?p \<and>
                    (file_type f \<in> set allowedTypes \<or>
                     (\<exists>ext\<in>set allowedExtensions. suffix ext (toLowerCase (file_name f)))))
          [file_notes]" by blast
  also have "\<dots> = [file_notes]" using sz c d by auto
  finally have e: "selected (processFiles kb ?p [file_notes]) = [file_notes]" .
  from a b c v e show ?thesis by simp
qed

section \<open>The upload area: size and type of each file\<close>

lemma startFileUpload_fields:
  "uploadedFiles (startFileUpload refs s) = uploadedFiles s"
  "error (startFileUpload refs s) = error s"
  "heap (startFileUpload refs s) =
     (if refs = [] then heap s
      else (heap s)[hd refs := (heap s ! hd refs)\<lparr>f_status := Uploading, f_progress := Some 0\<rparr>])"
  by (cases refs; simp add: startFileUpload_def begin_file_def Let_def)+

lemma handleFilesSelected_queue:
  "uploadedFiles (handleFilesSelected gen files s) =
     uploadedFiles s @ [length (heap s) ..< length (heap s) + length files]"
  unfolding handleFilesSelected_def Let_def startFileUpload_fields by simp

lemma handleFilesSelected_error:
  "error (handleFilesSelected gen files s) = error s"
  unfolding handleFilesSelected_def Let_def startFileUpload_fields by simp

lemma handleFilesSelected_heap:
  "heap (handleFilesSelected gen files s) =
     (if files = [] then heap s
      else (heap s @ map (\<lambda>i. newFile (gen i) (files ! i)) [0 ..< length files])
             [length (heap s) :=
                (newFile (gen 0) (files ! 0))\<lparr>f_status := Uploading, f_progress := Some 0\<rparr>])"
proof (cases "files = []")
  case True
  then show ?thesis
    unfolding handleFilesSelected_def Let_def startFileUpload_fields by simp
next
  case False
  then have pos: "0 < length files" by simp
  then have hd: "hd [length (heap s) ..< length (heap s) + length files] = length (heap s)"
    by simp
  have ne: "[length (heap s) ..< length (heap s) + length files] \<noteq> []"
    using pos by simp
  have first: "(heap s @ map (\<lambda>i. newFile (gen i) (files ! i)) [0 ..< length files]) ! length (heap s)
                 = newFile (gen 0) (files ! 0)"
    using pos by (simp add: nth_append)
  show ?thesis
    unfolding handleFilesSelected_def Let_def startFileUpload_fields
    using False ne first by (simp add: hd)
qed

lemma file_of_new:
  assumes "i < length files"
  shows "file_of (heap (handleFilesSelected gen files s) ! (length (heap s) + i)) = files ! i"
proof -
  from assms have ne: "files \<noteq> []" by auto
  show ?thesis
  proof (cases i)
    case 0
    with ne show ?thesis
      by (simp add: handleFilesSelected_heap file_of_def newFile_def nth_list_update_if)
  next
    case (Suc j)
    with assms ne show ?thesis
      by (simp add: handleFilesSelected_heap file_of_def newFile_def nth_list_update_if nth_append)
  qed
qed

lemma file_of_new_refs:
  "map (\<lambda>r. file_of (heap (handleFilesSelected gen files s) ! r))
       [length (heap s) ..< length (heap s) + length files] = files"
proof (rule nth_equalityI)
  show "length (map (\<lambda>r. file_of (heap (handleFilesSelected gen files s) ! r))
       [length (heap s) ..< length (heap s) + length files]) = length files"
    by simp
next
  fix i
  assume "i < length (map (\<lambda>r. file_of (heap (handleFilesSelected gen files s) ! r))
       [length (heap s) ..< length (heap s) + length files])"
  then have i: "i < length files" by simp
  then show "map (\<lambda>r. file_of (heap (handleFilesSelected gen files s) ! r))
       [length (heap s) ..< length (heap s) + length files] ! i = files ! i"
    by (simp add: file_of_new)
qed

lemma join_contains: "x \<in> set xs \<Longrightarrow> sublist x (join sep xs)"
proof (induction sep xs rule: join.induct)
  case (1 sep)
  then show ?case by simp
next
  case (2 sep y)
  then show ?case by simp
next
  case (3 sep y z zs)
  show ?case
  proof (cases "x = y")
    case True
    then show ?thesis by simp
  next
    case False
    with 3 have "sublist x (join sep (z # zs))" by simp
    then obtain ps ss where "join sep (z # zs) = ps @ x @ ss"
      unfolding sublist_def by blast
    then have "join sep (y # z # zs) = (y @ sep @ ps) @ x @ ss" by simp
    then show ?thesis unfolding sublist_def by blast
  qed
qed

lemma too_large_text:
  "sublist ''too large'' (too_large fmt m f)" "sublist (file_name f) (too_large fmt m f)"
proof -
  have "too_large fmt m f = (file_name f @ '' is '') @ ''too large'' @ ('' (max '' @ fmt m @ '')'')"
    by (simp add: too_large_def)
  then show "sublist ''too large'' (too_large fmt m f)"
    unfolding sublist_def by blast
  show "sublist (file_name f) (too_large fmt m f)"
    by (simp add: too_large_def)
qed

lemma not_supported_text: "sublist (file_name f) (not_supported f)"
  by (simp add: not_supported_def)

lemma rejection_names_file: "sublist (file_name f) (rejection fmt m f)"
  by (simp add: rejection_def too_large_text not_supported_text)

lemma sublist_trans': "sublist a b \<Longrightarrow> sublist b c \<Longrightarrow> sublist a c"
  by (rule sublist_order.order_trans)

text \<open>
  C7. When the count limit admits the batch, every file is judged on its own: the files
  within the size limit and of a valid type are appended to the chat window's list, in
  order, as new entries; the others are reported in one \<open>upload-error\<close> text, the
  per-file texts joined by commas, which names every rejected file. A file over the size
  limit is among the rejected, is not appended, and its text contains \<open>too large\<close>.
  If no file is rejected the error text is left as it was.
\<close>

theorem batch_within_limit:
  assumes "length (uploadedFiles s) + length files \<le> maxFiles"
  shows "let accepted = filter (accepts maxFileSize) files;
             rejected = filter (\<lambda>f. \<not> accepts maxFileSize f) files;
             report = join '', '' (map (rejection fmt maxFileSize) rejected);
             s' = select_files fmt maxFileSize maxFiles gen files s;
             n0 = length (heap s)
         in processFiles fmt (props_of maxFileSize maxFiles s) files =
              (if rejected = [] then [] else [UploadError report]) @
              (if accepted = [] then [] else [FilesSelected accepted]) \<and>
            uploadedFiles s' = uploadedFiles s @ [n0 ..< n0 + length accepted] \<and>
            map (\<lambda>r. file_of (heap s' ! r)) [n0 ..< n0 + length accepted] = accepted \<and>
            error s' = (if rejected = [] then error s else Some report) \<and>
            (\<forall>f\<in>set rejected.
               sublist (rejection fmt maxFileSize f) report \<and> sublist (file_name f) report) \<and>
            (\<forall>f\<in>set files. file_size f > maxFileSize \<longrightarrow>
               f \<in> set rejected \<and> f \<notin> set accepted \<and>
               sublist ''too large'' (rejection fmt maxFileSize f))"
proof -
  let ?acc = "filter (accepts maxFileSize) files"
  let ?rej = "filter (\<lambda>f. \<not> accepts maxFileSize f) files"
  let ?rep = "join '', '' (map (rejection fmt maxFileSize) ?rej)"
  let ?p = "props_of maxFileSize maxFiles s"
  let ?s1 = "if ?rej = [] then s else handleUploadError ?rep s"
  let ?s' = "if ?acc = [] then ?s1 else handleFilesSelected gen ?acc ?s1"
  have c: "length (props_files ?p) + length files \<le> props_maxFiles ?p"
    using assms by simp
  have sel: "select_files fmt maxFileSize maxFiles gen files s = ?s'"
    unfolding select_files_def processFiles_within [OF c] by simp
  have h1: "heap ?s1 = heap s" and q1: "uploadedFiles ?s1 = uploadedFiles s"
    and e1: "error ?s1 = (if ?rej = [] then error s else Some ?rep)"
    by (auto simp: handleUploadError_def)
  have queue: "uploadedFiles ?s' = uploadedFiles s @ [length (heap s) ..< length (heap s) + length ?acc]"
    using h1 q1 by (simp add: handleFilesSelected_queue)
  have objs: "map (\<lambda>r. file_of (heap ?s' ! r)) [length (heap s) ..< length (heap s) + length ?acc] = ?acc"
  proof (cases "?acc = []")
    case True
    then show ?thesis by simp
  next
    case False
    have "map (\<lambda>r. file_of (heap (handleFilesSelected gen ?acc ?s1) ! r))
            [length (heap ?s1) ..< length (heap ?s1) + length ?acc] = ?acc"
      by (rule file_of_new_refs)
    with False h1 show ?thesis by simp
  qed
  have err: "error ?s' = (if ?rej = [] then error s else Some ?rep)"
    by (simp add: handleFilesSelected_error handleUploadError_def)
  have listed: "\<forall>f\<in>set ?rej. sublist (rejection fmt maxFileSize f) ?rep \<and> sublist (file_name f) ?rep"
  proof
    fix f assume "f \<in> set ?rej"
    then have "rejection fmt maxFileSize f \<in> set (map (rejection fmt maxFileSize) ?rej)"
      by simp
    then have a: "sublist (rejection fmt maxFileSize f) ?rep" by (rule join_contains)
    moreover have "sublist (file_name f) ?rep"
      using rejection_names_file a by (rule sublist_trans')
    ultimately show "sublist (rejection fmt maxFileSize f) ?rep \<and> sublist (file_name f) ?rep" ..
  qed
  have big: "\<forall>f\<in>set files. file_size f > maxFileSize \<longrightarrow>
               f \<in> set ?rej \<and> f \<notin> set ?acc \<and> sublist ''too large'' (rejection fmt maxFileSize f)"
    by (auto simp: accepts_def rejection_def too_large_text)
  have emitted: "processFiles fmt ?p files =
      (if ?rej = [] then [] else [UploadError ?rep]) @
      (if ?acc = [] then [] else [FilesSelected ?acc])"
    using processFiles_within [OF c] by simp
  show ?thesis
    unfolding Let_def sel using emitted queue objs err listed big by blast
qed

lemma valid_notes: "isValidFileType file_notes"
  by (simp add: isValidFileType_def file_notes_def allowedTypes_def allowedExtensions_def
      endsWith_def toLowerCase_def lower_char_def)

text \<open>
  The theorem with \<open>maxFileSize = 1024\<close>: \<open>notes.TXT\<close> (10 bytes) is queued,
  \<open>large.txt\<close> (2048 bytes) is reported.
\<close>

theorem batch_within_limit_witness:
  "length (uploadedFiles init_window) + length [file_notes, file_large] \<le> 5 \<and>
   uploadedFiles (select_files kb 1024 5 ids [file_notes, file_large] init_window) = [0] \<and>
   file_of (heap (select_files kb 1024 5 ids [file_notes, file_large] init_window) ! 0) = file_notes \<and>
   error (select_files kb 1024 5 ids [file_notes, file_large] init_window) =
     Some ''large.txt is too large (max 1 KB)''"
proof -
  let ?files = "[file_notes, file_large]"
  have a: "length (uploadedFiles init_window) + length ?files \<le> 5"
    by (simp add: init_window_def)
  have acc: "filter (accepts 1024) ?files = [file_notes]"
    using valid_notes by (simp add: accepts_def file_notes_def file_large_def)
  have rej: "filter (\<lambda>f. \<not> accepts 1024 f) ?files = [file_large]"
    using valid_notes by (simp add: accepts_def file_notes_def file_large_def)
  have rep: "rejection kb 1024 file_large = ''large.txt is too large (max 1 KB)''"
    by (simp add: rejection_def too_large_def file_large_def kb_def string_of_nat.simps)
  have h: "length (heap init_window) = 0" by (simp add: init_window_def)
  have q: "uploadedFiles init_window = []" by (simp add: init_window_def)
  from batch_within_limit [OF a, of 1024 kb ids]
  show ?thesis
    using a unfolding Let_def acc rej h q by (simp add: rep)
qed

section \<open>The chat window: concrete runs of the upload loop\<close>

lemma one_uploading_eq:
  "one_uploading =
     \<lparr>heap = [(newFile ''id0'' file_new)\<lparr>f_status := Uploading, f_progress := Some 0\<rparr>],
      uploadedFiles = [0], isUploading = True, uploadProgress = 0, showFileUpload = False,
      error = None, tasks = [\<lparr>t_file = 0, t_progress = 0, t_rest = []\<rparr>]\<rparr>"
  by (simp add: one_uploading_def select_files_def processFiles_def props_of_def entries_def
      init_window_def default_maxFiles_def default_maxFileSize_def file_new_def
      isValidFileType_def allowedTypes_def handleFilesSelected_def startFileUpload_def
      begin_file_def newFile_def ids_def string_of_nat.simps Let_def)

lemma half_way_eq:
  "half_way =
     \<lparr>heap = [(newFile ''id0'' file_new)\<lparr>f_status := Uploading, f_progress := Some 50\<rparr>],
      uploadedFiles = [0], isUploading = True, uploadProgress = 50, showFileUpload = False,
      error = None, tasks = [\<lparr>t_file = 0, t_progress = 50, t_rest = []\<rparr>]\<rparr>"
  by (simp add: half_way_def one_uploading_eq resume_def Let_def eval_nat_numeral)


section \<open>Removing an entry\<close>




section \<open>Reported upload progress\<close>

lemma filter_eq_single:
  assumes "filter (\<lambda>q. q \<in> set (r # rest)) xs = r # rest" and "r \<notin> set rest"
  shows "filter (\<lambda>q. q = r) xs = [r]"
proof -
  have "filter (\<lambda>q. q = r) xs = filter (\<lambda>q. q = r) (filter (\<lambda>q. q \<in> set (r # rest)) xs)"
    by (simp add: conj_commute cong: conj_cong)
  also have "\<dots> = filter (\<lambda>q. q = r) (r # rest)" by (simp only: assms(1))
  also have "\<dots> = [r]" using assms(2) by (auto simp: filter_empty_conv)
  finally show ?thesis .
qed

lemma filter_tail:
  assumes "filter (\<lambda>q. q \<in> set (r # r' # rs)) xs = r # r' # rs" and "r \<notin> set (r' # rs)"
  shows "filter (\<lambda>q. q \<in> set (r' # rs)) xs = r' # rs"
proof -
  have "filter (\<lambda>q. q \<in> set (r' # rs)) xs =
          filter (\<lambda>q. q \<in> set (r' # rs)) (filter (\<lambda>q. q \<in> set (r # r' # rs)) xs)"
    by (auto intro: filter_cong)
  also have "\<dots> = filter (\<lambda>q. q \<in> set (r' # rs)) (r # r' # rs)" by (simp only: assms(1))
  also have "\<dots> = r' # rs" using assms(2) by (simp add: filter_id_conv)
  finally show ?thesis .
qed

lemma batch_inv_uploading:
  assumes "batch_inv s"
  shows "(isUploading s \<longleftrightarrow> tasks s \<noteq> []) \<and>
         (tasks s \<noteq> [] \<longrightarrow> uploading_progress s = [uploadProgress s]) \<and>
         (tasks s = [] \<longrightarrow> uploading_progress s = [])"
proof (cases "tasks s")
  case Nil
  with assms have "\<not> isUploading s"
    and "\<forall>q\<in>set (uploadedFiles s). f_status (heap s ! q) \<noteq> Uploading"
    by (simp_all add: batch_inv_def)
  then show ?thesis
    using Nil by (simp add: uploading_progress_def entries_def filter_map o_def filter_empty_conv)
next
  case (Cons t ts)
  with assms have ts: "ts = []"
    by (cases ts) (simp_all add: batch_inv_def)
  let ?r = "t_file t"
  from assms Cons ts have up: "isUploading s" and d: "?r \<notin> set (t_rest t)"
    and f: "filter (\<lambda>q. q \<in> set (?r # t_rest t)) (uploadedFiles s) = ?r # t_rest t"
    and st: "f_status (heap s ! ?r) = Uploading"
    and pr: "f_progress (heap s ! ?r) = Some (real (t_progress t))"
    and rep: "uploadProgress s = real (t_progress t)"
    and others: "\<forall>q\<in>set (uploadedFiles s). q \<noteq> ?r \<longrightarrow> f_status (heap s ! q) \<noteq> Uploading"
    by (simp_all add: batch_inv_def)
  have "filter (\<lambda>q. f_status (heap s ! q) = Uploading) (uploadedFiles s) =
          filter (\<lambda>q. q = ?r) (uploadedFiles s)"
    using others st by (intro filter_cong) auto
  also have "\<dots> = [?r]" using f d by (rule filter_eq_single)
  finally have "filter (\<lambda>q. f_status (heap s ! q) = Uploading) (uploadedFiles s) = [?r]" .
  then have "uploading_progress s = [entry_progress (heap s ! ?r)]"
    by (simp add: uploading_progress_def entries_def filter_map o_def)
  with pr rep up Cons show ?thesis
    by (simp add: entry_progress_def)
qed

lemma batch_inv_start:
  assumes "tasks s = []"
    and "\<forall>r\<in>set (uploadedFiles s). r < length (heap s) \<and> f_status (heap s ! r) \<noteq> Uploading"
  shows "batch_inv (handleFilesSelected gen files s)"
proof (cases files)
  case Nil
  with assms show ?thesis
    by (simp add: handleFilesSelected_def startFileUpload_def batch_inv_def Let_def nth_append)
next
  case (Cons f fs)
  let ?n = "length (heap s)"
  let ?new = "map (\<lambda>i. newFile (gen i) (files ! i)) [0 ..< length files]"
  let ?s' = "handleFilesSelected gen files s"
  from Cons have pos: "0 < length files" by simp
  then have "?n < ?n + length files" by simp
  then have refs: "[?n ..< ?n + length files] = ?n # [Suc ?n ..< ?n + length files]"
    by (rule upt_conv_Cons)
  have hp: "heap ?s' = (heap s @ ?new)[?n := (newFile (gen 0) (files ! 0))\<lparr>f_status := Uploading, f_progress := Some 0\<rparr>]"
    using Cons by (simp add: handleFilesSelected_heap)
  have q: "uploadedFiles ?s' = uploadedFiles s @ [?n ..< ?n + length files]"
    by (rule handleFilesSelected_queue)
  have t: "tasks ?s' = [\<lparr>t_file = ?n, t_progress = 0, t_rest = [Suc ?n ..< ?n + length files]\<rparr>]"
    unfolding handleFilesSelected_def Let_def refs
    using assms(1) by (simp add: startFileUpload_def begin_file_def)
  have u: "isUploading ?s'" and rp: "uploadProgress ?s' = 0"
    unfolding handleFilesSelected_def Let_def refs
    by (simp_all add: startFileUpload_def begin_file_def)
  have len: "length (heap ?s') = ?n + length files" by (simp add: hp)
  have old: "\<forall>r\<in>set (uploadedFiles s). r < ?n" using assms(2) by blast
  have flt: "filter (\<lambda>q. q \<in> set [?n ..< ?n + length files]) (uploadedFiles ?s')
               = [?n ..< ?n + length files]"
    unfolding q using old by (auto simp: filter_empty_conv filter_id_conv)
  have st0: "f_status (heap ?s' ! ?n) = Uploading" "f_progress (heap ?s' ! ?n) = Some 0"
    using pos by (simp_all add: hp)
  have rest: "\<forall>r\<in>set (uploadedFiles ?s'). r \<noteq> ?n \<longrightarrow> f_status (heap ?s' ! r) \<noteq> Uploading"
  proof (intro ballI impI)
    fix r assume r: "r \<in> set (uploadedFiles ?s')" and ne: "r \<noteq> ?n"
    show "f_status (heap ?s' ! r) \<noteq> Uploading"
    proof (cases "r < ?n")
      case True
      with r q old assms(2) have "r \<in> set (uploadedFiles s)" by auto
      with assms(2) True ne show ?thesis by (simp add: hp nth_append)
    next
      case False
      with r q ne old have b: "?n < r" "r < ?n + length files" by auto
      then have "heap ?s' ! r = newFile (gen (r - ?n)) (files ! (r - ?n))"
        using ne by (simp add: hp nth_append)
      then show ?thesis by (simp add: newFile_def)
    qed
  qed
  show ?thesis
    unfolding batch_inv_def t
    using u rp flt st0 rest len pos by (simp add: refs)
qed

lemma batch_inv_resume:
  assumes "batch_inv s"
  shows "batch_inv (resume 0 s)"
proof (cases "tasks s")
  case Nil
  with assms show ?thesis by (simp add: resume_def)
next
  case (Cons t ts)
  with assms have ts: "ts = []"
    by (cases ts) (simp_all add: batch_inv_def)
  let ?r = "t_file t"
  let ?p = "t_progress t + 10"
  from assms Cons ts have up: "isUploading s"
    and dist: "distinct (?r # t_rest t)"
    and valid: "\<forall>q\<in>set (?r # t_rest t). q < length (heap s)"
    and f: "filter (\<lambda>q. q \<in> set (?r # t_rest t)) (uploadedFiles s) = ?r # t_rest t"
    and st: "f_status (heap s ! ?r) = Uploading"
    and others: "\<forall>q\<in>set (uploadedFiles s). q \<noteq> ?r \<longrightarrow> f_status (heap s ! q) \<noteq> Uploading"
    by (simp_all add: batch_inv_def)
  from valid have r: "?r < length (heap s)" by simp
  have tk: "tasks s = [t]" using Cons ts by simp
  show ?thesis
  proof (cases "?p \<le> 100")
    case True
    let ?s' = "s\<lparr>heap := (heap s)[?r := (heap s ! ?r)\<lparr>f_progress := Some (real ?p)\<rparr>],
                 uploadProgress := real ?p,
                 tasks := [t\<lparr>t_progress := ?p\<rparr>]\<rparr>"
    have eq: "resume 0 s = ?s'"
      using True tk by (simp add: resume_def Let_def)
    have same: "f_status (heap ?s' ! q) = f_status (heap s ! q)" for q
      by (simp add: nth_list_update_if)
    show ?thesis
      unfolding eq batch_inv_def
      using True up dist valid f st others r
      by (simp add: nth_list_update_if)
  next
    case False
    let ?h1 = "(heap s)[?r := (heap s ! ?r)\<lparr>f_status := Completed\<rparr>]"
    show ?thesis
    proof (cases "t_rest t")
      case Nil
      let ?s' = "s\<lparr>heap := ?h1, isUploading := False, tasks := []\<rparr>"
      have eq: "resume 0 s = ?s'"
        using False tk Nil by (simp add: resume_def Let_def)
      have "\<forall>q\<in>set (uploadedFiles s). f_status (?h1 ! q) \<noteq> Uploading"
        using others r by (auto simp: nth_list_update_if)
      then show ?thesis
        unfolding eq batch_inv_def by simp
    next
      case (Cons r' rs)
      let ?h2 = "?h1[r' := (?h1 ! r')\<lparr>f_status := Uploading, f_progress := Some 0\<rparr>]"
      let ?s' = "s\<lparr>heap := ?h2, uploadProgress := 0,
                   tasks := [\<lparr>t_file = r', t_progress = 0, t_rest = rs\<rparr>]\<rparr>"
      have eq: "resume 0 s = ?s'"
        using False tk Cons by (simp add: resume_def Let_def begin_file_def)
      from dist Cons have ne: "?r \<noteq> r'" and d': "distinct (r' # rs)"
        and notin: "?r \<notin> set (r' # rs)" by auto
      from valid Cons have r': "r' < length (heap s)" and v': "\<forall>q\<in>set (r' # rs). q < length (heap s)"
        by auto
      have f': "filter (\<lambda>q. q \<in> set (r' # rs)) (uploadedFiles s) = r' # rs"
        using f notin unfolding Cons by (rule filter_tail)
      have st': "f_status (?h2 ! r') = Uploading" "f_progress (?h2 ! r') = Some 0"
        using r' by simp_all
      have oth: "\<forall>q\<in>set (uploadedFiles s). q \<noteq> r' \<longrightarrow> f_status (?h2 ! q) \<noteq> Uploading"
        using others r by (auto simp: nth_list_update_if)
      show ?thesis
        unfolding eq batch_inv_def
        using up d' v' f' st' oth by simp
    qed
  qed
qed

lemma batch_inv_funpow: "batch_inv s \<Longrightarrow> batch_inv ((resume 0 ^^ n) s)"
  by (induction n) (simp_all add: batch_inv_resume)

lemma mean_single: "mean [x] = x"
  by (simp add: mean_def)

lemma resume_shape:
  "uploadedFiles (resume i s) = uploadedFiles s" "length (heap (resume i s)) = length (heap s)"
  by (simp_all add: resume_def Let_def begin_file_def split: list.splits)

lemma resume_beyond: "length (tasks s) \<le> i \<Longrightarrow> resume i s = s"
  by (simp add: resume_def)

lemma batch_inv_tasks: "batch_inv s \<Longrightarrow> length (tasks s) \<le> 1"
  by (cases "tasks s"; cases "tl (tasks s)") (auto simp: batch_inv_def split: list.splits)

lemma window_inv_init: "window_inv init_window"
  by (simp add: window_inv_def batch_inv_def init_window_def)

lemma window_inv_select:
  assumes "window_inv s" and "tasks s = []"
  shows "window_inv (handleFilesSelected gen files s)"
proof -
  from assms have idle: "\<forall>r\<in>set (uploadedFiles s). r < length (heap s) \<and> f_status (heap s ! r) \<noteq> Uploading"
    by (simp add: window_inv_def batch_inv_def)
  with assms(2) have b: "batch_inv (handleFilesSelected gen files s)"
    by (rule batch_inv_start)
  have len: "length (heap (handleFilesSelected gen files s)) = length (heap s) + length files"
    by (simp add: handleFilesSelected_heap)
  have "\<forall>q\<in>set (uploadedFiles (handleFilesSelected gen files s)).
          q < length (heap (handleFilesSelected gen files s))"
    unfolding handleFilesSelected_queue len using idle by auto
  with b show ?thesis by (simp add: window_inv_def)
qed

lemma window_inv_tick:
  assumes "window_inv s"
  shows "window_inv (resume i s)"
proof (cases i)
  case 0
  with assms show ?thesis
    by (simp add: window_inv_def batch_inv_resume resume_shape)
next
  case (Suc j)
  from assms have "batch_inv s" by (simp add: window_inv_def)
  then have "length (tasks s) \<le> 1" by (rule batch_inv_tasks)
  with Suc have "resume i s = s" by (simp add: resume_beyond)
  with assms show ?thesis by simp
qed

lemma filter_keeps:
  assumes "filter (\<lambda>q. q \<in> set bs) xs = bs" and "\<forall>r\<in>set bs. P r"
  shows "filter (\<lambda>q. q \<in> set bs) (filter P xs) = bs"
proof -
  have "filter (\<lambda>q. q \<in> set bs) (filter P xs) = filter P (filter (\<lambda>q. q \<in> set bs) xs)"
    by (simp add: conj_commute)
  also have "\<dots> = filter P bs" by (simp only: assms(1))
  also have "\<dots> = bs" using assms(2) by (simp add: filter_id_conv)
  finally show ?thesis .
qed

lemma window_inv_remove:
  assumes "window_inv s" and "\<forall>r\<in>set (in_flight s). f_id (heap s ! r) \<noteq> fileId"
  shows "window_inv (handleFileRemove fileId s)"
proof -
  let ?P = "\<lambda>r. f_id (heap s ! r) \<noteq> fileId"
  let ?s' = "handleFileRemove fileId s"
  have q: "uploadedFiles ?s' = filter ?P (uploadedFiles s)"
    and same: "heap ?s' = heap s" "tasks ?s' = tasks s" "isUploading ?s' = isUploading s"
      "uploadProgress ?s' = uploadProgress s"
    by (simp_all add: handleFileRemove_def)
  from assms(1) have b: "batch_inv s" and v: "\<forall>q\<in>set (uploadedFiles s). q < length (heap s)"
    by (simp_all add: window_inv_def)
  have v': "\<forall>q\<in>set (uploadedFiles ?s'). q < length (heap ?s')"
    unfolding q same using v by simp
  have "batch_inv ?s'"
  proof (cases "tasks s")
    case Nil
    with b show ?thesis
      unfolding batch_inv_def same q by simp
  next
    case (Cons t ts)
    with b have ts: "ts = []" by (cases ts) (simp_all add: batch_inv_def)
    with Cons have fl: "in_flight s = t_file t # t_rest t" by (simp add: in_flight_def)
    from b Cons ts have f: "filter (\<lambda>q. q \<in> set (t_file t # t_rest t)) (uploadedFiles s) = t_file t # t_rest t"
      by (simp add: batch_inv_def)
    from assms(2) fl have "\<forall>r\<in>set (t_file t # t_rest t). ?P r" by simp
    with f have f': "filter (\<lambda>q. q \<in> set (t_file t # t_rest t)) (filter ?P (uploadedFiles s)) = t_file t # t_rest t"
      by (rule filter_keeps)
    from b Cons ts show ?thesis
      unfolding batch_inv_def same q using f' by simp
  qed
  with v' show ?thesis by (simp add: window_inv_def)
qed

lemma window_inv_clear:
  assumes "window_inv s" and "tasks s = []"
  shows "window_inv (clearFiles s)"
  using assms by (simp add: window_inv_def batch_inv_def clearFiles_def)

lemma window_inv_error: "window_inv s \<Longrightarrow> window_inv (handleUploadError msg s)"
  by (simp add: window_inv_def batch_inv_def handleUploadError_def split: list.splits)

lemma window_inv_dismiss: "window_inv s \<Longrightarrow> window_inv (clearError s)"
  by (simp add: window_inv_def batch_inv_def clearError_def split: list.splits)

lemma window_inv_toggle: "window_inv s \<Longrightarrow> window_inv (toggleFileUpload s)"
  by (simp add: window_inv_def batch_inv_def toggleFileUpload_def split: list.splits)

lemma window_inv_act: "window_inv s \<Longrightarrow> permitted s a \<Longrightarrow> window_inv (act s a)"
  by (cases a)
     (simp_all add: window_inv_select window_inv_tick window_inv_remove window_inv_clear
        window_inv_error window_inv_dismiss window_inv_toggle)

lemma window_inv_perform:
  "window_inv s \<Longrightarrow> permitted_run s as \<Longrightarrow> window_inv (perform s as)"
  unfolding perform_def
  by (induction as arbitrary: s) (simp_all add: window_inv_act)

text \<open>
  C9 (as amended). Take any run of the chat window from its initial state in which
  batches do not overlap (files are handed over only while no upload is in flight), the
  list is not cleared while an upload is in flight, and no entry that an upload in
  flight still has to work on is removed. At every point of such a run uploads are in
  flight exactly while \<open>isUploading\<close> is set; while they are, exactly one listed entry is
  uploading and the reported progress is the progress of that entry, which is the
  arithmetic mean of the progress over the entries that are uploading (entries that
  are pending or completed do not enter into it); while none is in flight, no listed
  entry is uploading.
\<close>

theorem sequential_batches_progress:
  assumes "permitted_run init_window as"
  shows "let s = perform init_window as
         in (isUploading s \<longleftrightarrow> tasks s \<noteq> []) \<and>
            (tasks s \<noteq> [] \<longrightarrow>
               uploading_progress s = [uploadProgress s] \<and>
               mean (uploading_progress s) = uploadProgress s) \<and>
            (tasks s = [] \<longrightarrow> uploading_progress s = [])"
proof -
  have "window_inv (perform init_window as)"
    using window_inv_init assms by (rule window_inv_perform)
  then have "batch_inv (perform init_window as)" by (simp add: window_inv_def)
  from batch_inv_uploading [OF this] show ?thesis
    unfolding Let_def by (auto simp: mean_single)
qed

lemma after_first_batch:
  "perform init_window (Select ids [file_new] # replicate 11 (Tick 0)) =
     \<lparr>heap = [(newFile ''id0'' file_new)\<lparr>f_status := Completed, f_progress := Some 100\<rparr>],
      uploadedFiles = [0], isUploading = False, uploadProgress = 100, showFileUpload = False,
      error = None, tasks = []\<rparr>"
  by (simp add: perform_def handleFilesSelected_def startFileUpload_def begin_file_def
      init_window_def newFile_def ids_def string_of_nat.simps resume_def Let_def
      eval_nat_numeral)

lemma permitted_ticks: "permitted_run s (replicate n (Tick 0)) "
  by (induction n arbitrary: s) simp_all

lemma permitted_run_append:
  "permitted_run s (as @ bs) \<longleftrightarrow> permitted_run s as \<and> permitted_run (perform s as) bs"
  unfolding perform_def by (induction as arbitrary: s) auto

lemma perform_append: "perform s (as @ bs) = perform (perform s as) bs"
  by (simp add: perform_def)

lemma busy_run_split:
  "busy_run = (Select ids [file_new] # replicate 11 (Tick 0)) @
     [Remove ''id0'', ShowError ''x'', Toggle, Select ids2 [file_notes, file_new],
      Tick 0, Tick 0, Tick 0]"
  by (simp add: busy_run_def)

lemma busy_run_permitted: "permitted_run init_window busy_run"
  unfolding busy_run_split permitted_run_append after_first_batch
  by (simp add: permitted_ticks init_window_def in_flight_def handleFileRemove_def
      handleUploadError_def toggleFileUpload_def)

lemma busy_run_state:
  "perform init_window busy_run =
     \<lparr>heap = [(newFile ''id0'' file_new)\<lparr>f_status := Completed, f_progress := Some 100\<rparr>,
              (newFile ''second0'' file_notes)\<lparr>f_status := Uploading, f_progress := Some 30\<rparr>,
              newFile ''second1'' file_new],
      uploadedFiles = [1, 2], isUploading = True, uploadProgress = 30, showFileUpload = True,
      error = Some ''x'', tasks = [\<lparr>t_file = 1, t_progress = 30, t_rest = [2]\<rparr>]\<rparr>"
  unfolding busy_run_split perform_append after_first_batch
  by (simp add: perform_def handleFilesSelected_def startFileUpload_def begin_file_def
      handleFileRemove_def handleUploadError_def toggleFileUpload_def newFile_def ids2_def
      string_of_nat.simps resume_def Let_def eval_nat_numeral)

text \<open>
  The theorem at the run \<open>busy_run\<close>: the second batch is in flight, its first file at
  30, its second file pending, and the reported progress is 30.
\<close>

theorem sequential_batches_progress_witness:
  "permitted_run init_window busy_run \<and>
   tasks (perform init_window busy_run) \<noteq> [] \<and>
   uploading_progress (perform init_window busy_run) = [30] \<and>
   uploadProgress (perform init_window busy_run) = 30 \<and>
   mean (uploading_progress (perform init_window busy_run)) = 30"
proof -
  let ?s = "perform init_window busy_run"
  have a: "permitted_run init_window busy_run" by (rule busy_run_permitted)
  have t: "tasks ?s \<noteq> []" by (simp add: busy_run_state)
  have u: "uploadProgress ?s = 30" by (simp add: busy_run_state)
  from sequential_batches_progress [OF a] t
  have "uploading_progress ?s = [uploadProgress ?s] \<and> mean (uploading_progress ?s) = uploadProgress ?s"
    unfolding Let_def by blast
  with a t u show ?thesis by (simp add: mean_single)
qed

text \<open>
  Why clearing is excluded while an upload is in flight: the loop keeps writing to a
  file that is no longer listed, so progress is reported while no listed entry is
  uploading.
\<close>

lemma cleared_in_flight:
  "\<not> permitted_run init_window [Select ids [file_new], Tick 0, Clear] \<and>
   isUploading (perform init_window [Select ids [file_new], Tick 0, Clear]) \<and>
   uploadProgress (perform init_window [Select ids [file_new], Tick 0, Clear]) = 10 \<and>
   uploading_progress (perform init_window [Select ids [file_new], Tick 0, Clear]) = []"
  by (simp add: perform_def handleFilesSelected_def startFileUpload_def begin_file_def
      init_window_def clearFiles_def resume_def Let_def uploading_progress_def entries_def)

text \<open>A second batch, selected while the first is half way.\<close>

lemma overlapping_eq:
  "overlapping =
     \<lparr>heap = [(newFile ''id0'' file_new)\<lparr>f_status := Uploading, f_progress := Some 50\<rparr>,
              (newFile ''second0'' file_notes)\<lparr>f_status := Uploading, f_progress := Some 0\<rparr>],
      uploadedFiles = [0, 1], isUploading = True, uploadProgress = 0, showFileUpload = False,
      error = None,
      tasks = [\<lparr>t_file = 0, t_progress = 50, t_rest = []\<rparr>,
               \<lparr>t_file = 1, t_progress = 0, t_rest = []\<rparr>]\<rparr>"
  using valid_notes
  by (simp add: overlapping_def half_way_eq select_files_def processFiles_def props_of_def
      entries_def default_maxFiles_def default_maxFileSize_def file_notes_def
      handleFilesSelected_def startFileUpload_def
      begin_file_def newFile_def ids2_def string_of_nat.simps Let_def)

text \<open>
  C9 as stated fails: when a second batch is selected while the first is half way, two
  entries are uploading, at 50 and at 0; uploads are in flight, and the reported
  progress is the value written last, 0, not their mean, 25.
\<close>

theorem overlapping_batches_counterexample:
  "isUploading overlapping \<and> uploading_progress overlapping = [50, 0] \<and>
   uploadProgress overlapping = 0 \<and> mean (uploading_progress overlapping) = 25 \<and>
   uploadProgress overlapping \<noteq> mean (uploading_progress overlapping)"
  by (simp add: overlapping_eq uploading_progress_def entries_def entry_progress_def mean_def
      newFile_def)

end
